theory Spec2Isabelle
  imports Complex_Main
begin

section \<open>Python strings\<close>

text \<open>
  A Python \<^verbatim>\<open>str\<close> is a sequence of Unicode code points, modelled as a list of
  natural numbers.  The character predicates below are those of CPython
  (Unicode 14.0, the database of CPython 3.11).
\<close>

type_synonym pystr = "nat list"

abbreviation str :: "string \<Rightarrow> pystr" where
  "str s \<equiv> map of_char s"

text \<open>\<^verbatim>\<open>str.isspace\<close> of one character, which is also the class \<^verbatim>\<open>\s\<close> of \<^verbatim>\<open>re\<close>.\<close>

definition is_space :: "nat \<Rightarrow> bool" where
  "is_space c \<longleftrightarrow>
     (9 \<le> c \<and> c \<le> 13) \<or> (28 \<le> c \<and> c \<le> 32) \<or> c = 133 \<or> c = 160 \<or> c = 5760 \<or>
     (8192 \<le> c \<and> c \<le> 8202) \<or> c = 8232 \<or> c = 8233 \<or> c = 8239 \<or> c = 8287 \<or>
     c = 12288"

text \<open>The line boundaries of \<^verbatim>\<open>str.splitlines\<close>.\<close>

definition is_linebreak :: "nat \<Rightarrow> bool" where
  "is_linebreak c \<longleftrightarrow>
     (10 \<le> c \<and> c \<le> 13) \<or> (28 \<le> c \<and> c \<le> 30) \<or> c = 133 \<or> c = 8232 \<or> c = 8233"

text \<open>
  The code points of the decimal digit zero of every script (general category Nd):
  each is followed by the digits one to nine of its script.
\<close>

definition decimal_zeros :: "nat list" where
  "decimal_zeros =
    [48, 1632, 1776, 1984, 2406, 2534, 2662, 2790, 2918, 3046, 3174, 3302, 3430, 3558,
     3664, 3792, 3872, 4160, 4240, 6112, 6160, 6470, 6608, 6784, 6800, 6992, 7088, 7232,
     7248, 42528, 43216, 43264, 43472, 43504, 43600, 44016, 65296, 66720, 68912, 69734,
     69872, 69942, 70096, 70384, 70736, 70864, 71248, 71360, 71472, 71904, 72016, 72784,
     73040, 73120, 92768, 92864, 93008, 120782, 120792, 120802, 120812, 120822, 123200,
     123632, 125264, 130032]"

text \<open>The decimal value of a code point, \<open>None\<close> when it is no decimal digit.\<close>

definition decimal_value :: "nat \<Rightarrow> nat option" where
  "decimal_value c =
     (if c < 128 then (if 48 \<le> c \<and> c \<le> 57 then Some (c - 48) else None)
      else map_option (\<lambda>z. c - z) (find (\<lambda>z. z \<le> c \<and> c < z + 10) decimal_zeros))"

text \<open>The class \<^verbatim>\<open>\d\<close> of \<^verbatim>\<open>re\<close> on a \<^verbatim>\<open>str\<close> pattern.\<close>

definition is_digit :: "nat \<Rightarrow> bool" where
  "is_digit c \<longleftrightarrow> decimal_value c \<noteq> None"

text \<open>\<^verbatim>\<open>str.strip()\<close>: leading and trailing whitespace removed.\<close>

definition lstrip :: "pystr \<Rightarrow> pystr" where
  "lstrip s = dropWhile is_space s"

definition rstrip :: "pystr \<Rightarrow> pystr" where
  "rstrip s = rev (dropWhile is_space (rev s))"

definition strip :: "pystr \<Rightarrow> pystr" where
  "strip s = rstrip (lstrip s)"

text \<open>
  \<^verbatim>\<open>str.splitlines()\<close>: the text is cut at every line boundary, \<^verbatim>\<open>\r\n\<close> counting
  as one; the boundaries are dropped and a boundary at the very end opens no further
  line.  The second argument is the line being read, reversed.
\<close>

fun splitlines_from :: "pystr \<Rightarrow> pystr \<Rightarrow> pystr list" where
  "splitlines_from [] cur = (if cur = [] then [] else [rev cur])"
| "splitlines_from [c] cur = (if is_linebreak c then [rev cur] else [rev (c # cur)])"
| "splitlines_from (c # d # cs) cur =
     (if c = 13 \<and> d = 10 then rev cur # splitlines_from cs []
      else if is_linebreak c then rev cur # splitlines_from (d # cs) []
      else splitlines_from (d # cs) (c # cur))"

definition splitlines :: "pystr \<Rightarrow> pystr list" where
  "splitlines text = splitlines_from text []"

text \<open>\<^verbatim>\<open>str.split(sep)\<close> for a separator of one character.\<close>

fun split_from :: "nat \<Rightarrow> pystr \<Rightarrow> pystr \<Rightarrow> pystr list" where
  "split_from sep [] cur = [rev cur]"
| "split_from sep (c # cs) cur =
     (if c = sep then rev cur # split_from sep cs [] else split_from sep cs (c # cur))"

definition py_split :: "nat \<Rightarrow> pystr \<Rightarrow> pystr list" where
  "py_split sep s = split_from sep s []"

section \<open>Regular expressions\<close>

text \<open>
  The fragment of \<^verbatim>\<open>re\<close> that the parser's pattern is written in: a character class
  under a repetition (\<open>Rep cls lo hi greedy\<close>: at least \<open>lo\<close>, at most \<open>hi\<close> characters
  of the class, the longest count first when greedy, the shortest first when lazy), a
  capturing group and an optional capturing group \<^verbatim>\<open>(...)?\<close>.  \<open>Close\<close> is the
  end-of-group mark the matcher leaves behind when it enters a group; it remembers the
  input at the start of the group.
\<close>

datatype node =
    Rep "nat \<Rightarrow> bool" nat "nat option" bool
  | Grp nat "node list"
  | OptGrp nat "node list"
  | Close nat pystr

type_synonym captures = "nat \<rightharpoonup> pystr"

text \<open>The numbers of characters a repetition may take, in the order they are tried.\<close>

definition candidates :: "nat \<Rightarrow> nat option \<Rightarrow> bool \<Rightarrow> nat \<Rightarrow> nat list" where
  "candidates lo hi greedy avail =
     (let mx = (case hi of None \<Rightarrow> avail | Some h \<Rightarrow> min h avail);
          ks = [lo ..< Suc mx]
      in if greedy then rev ks else ks)"

text \<open>Backtracking: the first alternative whose continuation succeeds.\<close>

fun first_match :: "(nat \<Rightarrow> 'a option) \<Rightarrow> nat list \<Rightarrow> 'a option" where
  "first_match f [] = None"
| "first_match f (k # ks) = (case f k of Some r \<Rightarrow> Some r | None \<Rightarrow> first_match f ks)"

fun weight :: "node \<Rightarrow> nat" where
  "weight (Rep cls lo hi greedy) = 1"
| "weight (Close n s0) = 1"
| "weight (Grp n xs) = 2 + sum_list (map weight xs)"
| "weight (OptGrp n xs) = 3 + sum_list (map weight xs)"

text \<open>
  \<open>run_nodes ns s caps\<close> matches the sequence \<open>ns\<close> at the start of \<open>s\<close> (as
  \<^verbatim>\<open>re.match\<close> does: anchored at the start, free at the end) and returns the groups
  of the first match in backtracking order.
\<close>

function run_nodes :: "node list \<Rightarrow> pystr \<Rightarrow> captures \<Rightarrow> captures option" where
  "run_nodes [] s caps = Some caps"
| "run_nodes (Rep cls lo hi greedy # ns) s caps =
     first_match (\<lambda>k. run_nodes ns (drop k s) caps)
       (candidates lo hi greedy (length (takeWhile cls s)))"
| "run_nodes (Grp n xs # ns) s caps = run_nodes (xs @ Close n s # ns) s caps"
| "run_nodes (Close n s0 # ns) s caps =
     run_nodes ns s (caps(n \<mapsto> take (length s0 - length s) s0))"
| "run_nodes (OptGrp n xs # ns) s caps =
     (case run_nodes (Grp n xs # ns) s caps of
        Some r \<Rightarrow> Some r
      | None \<Rightarrow> run_nodes ns s caps)"
  by pat_completeness auto
termination
  by (relation "measure (\<lambda>(ns, s, caps). sum_list (map weight ns))") auto

text \<open>
  The pattern of \<^verbatim>\<open>parse_lab_tests\<close>:
  \<^verbatim>\<open>(.*?)[\s:]+([\d.]+)[\s]*([a-zA-Z%/]+)?[\s]*[\(]?([\d.]+-[\d.]+)?[\)]?\<close>
\<close>

definition dot :: "nat \<Rightarrow> bool" where
  "dot c \<longleftrightarrow> c \<noteq> 10"

definition sep_class :: "nat \<Rightarrow> bool" where
  "sep_class c \<longleftrightarrow> is_space c \<or> c = 58"

definition num_class :: "nat \<Rightarrow> bool" where
  "num_class c \<longleftrightarrow> is_digit c \<or> c = 46"

definition unit_class :: "nat \<Rightarrow> bool" where
  "unit_class c \<longleftrightarrow> (97 \<le> c \<and> c \<le> 122) \<or> (65 \<le> c \<and> c \<le> 90) \<or> c = 37 \<or> c = 47"

definition one_of :: "nat \<Rightarrow> nat \<Rightarrow> bool" where
  "one_of a c \<longleftrightarrow> c = a"

definition pattern :: "node list" where
  "pattern =
    [Grp 1 [Rep dot 0 None False],
     Rep sep_class 1 None True,
     Grp 2 [Rep num_class 1 None True],
     Rep is_space 0 None True,
     OptGrp 3 [Rep unit_class 1 None True],
     Rep is_space 0 None True,
     Rep (one_of 40) 0 (Some 1) True,
     OptGrp 4 [Rep num_class 1 None True, Rep (one_of 45) 1 (Some 1) True,
               Rep num_class 1 None True],
     Rep (one_of 41) 0 (Some 1) True]"

text \<open>\<^verbatim>\<open>re.match(pattern, s)\<close>; \<open>None\<close> when there is no match.\<close>

definition re_match :: "node list \<Rightarrow> pystr \<Rightarrow> captures option" where
  "re_match p s = run_nodes p s Map.empty"

section \<open>Floating-point numbers\<close>

text \<open>
  The values \<^verbatim>\<open>float()\<close> can return on the strings the parser hands it, which hold
  decimal digits and points only: a non-negative binary64 number, given by the rational
  it denotes, or positive infinity.
\<close>

datatype pyfloat = Finite rat | PosInf

fun float_le :: "pyfloat \<Rightarrow> pyfloat \<Rightarrow> bool" where
  "float_le (Finite a) (Finite b) = (a \<le> b)"
| "float_le x PosInf = True"
| "float_le PosInf (Finite b) = False"

fun float_less :: "pyfloat \<Rightarrow> pyfloat \<Rightarrow> bool" where
  "float_less (Finite a) (Finite b) = (a < b)"
| "float_less (Finite a) PosInf = True"
| "float_less PosInf y = False"

fun ilog2 :: "nat \<Rightarrow> nat" where
  "ilog2 n = (if n < 2 then 0 else Suc (ilog2 (n div 2)))"

definition pow2 :: "int \<Rightarrow> rat" where
  "pow2 k = (if 0 \<le> k then 2 ^ nat k else 1 / 2 ^ nat (- k))"

declare ilog2.simps [simp del]

text \<open>
  The binary exponent of a positive rational: \<open>2 ^ e \<le> q < 2 ^ (e + 1)\<close>.  From 1 on
  it is the binary logarithm of the integer part; below 1 it is the negated binary
  logarithm of \<open>1 / q\<close>, rounded up.
\<close>

definition floor_log2 :: "rat \<Rightarrow> int" where
  "floor_log2 q =
     (if 1 \<le> q then int (ilog2 (nat \<lfloor>q\<rfloor>))
      else - int (Suc (ilog2 (nat (\<lceil>1 / q\<rceil> - 1)))))"

definition round_half_even :: "rat \<Rightarrow> int" where
  "round_half_even x =
     (let f = \<lfloor>x\<rfloor>; r = x - of_int f
      in if r < 1 / 2 then f else if 1 / 2 < r then f + 1 else if even f then f else f + 1)"

text \<open>
  Correct rounding of a non-negative rational to binary64, as \<^verbatim>\<open>float()\<close> does for
  a numeral: 53 significant bits, the exponent not below that of the subnormal numbers,
  ties to the even significand, and infinity from \<open>2 ^ 1024\<close> on.
\<close>

definition round_to_double :: "rat \<Rightarrow> pyfloat" where
  "round_to_double q =
     (if q = 0 then Finite 0
      else let e = max (floor_log2 q) (- 1022);
               u = pow2 (e - 52);
               r = of_int (round_half_even (q / u)) * u
           in if 2 ^ 1024 \<le> r then PosInf else Finite r)"

text \<open>The natural number written by a string of decimal digits.\<close>

definition digits_value :: "pystr \<Rightarrow> nat" where
  "digits_value s = foldl (\<lambda>a d. 10 * a + d) 0 (List.map_filter decimal_value s)"

text \<open>
  The rational written by a numeral: digits with at most one point among them and at
  least one digit (\<^verbatim>\<open>"7"\<close>, \<^verbatim>\<open>"7."\<close>, \<^verbatim>\<open>".5"\<close>, \<^verbatim>\<open>"9.5"\<close>); \<open>None\<close> for any other
  string.
\<close>

definition decimal_of :: "pystr \<Rightarrow> rat option" where
  "decimal_of s =
     (let ip = takeWhile is_digit s; r = dropWhile is_digit s
      in case r of
           [] \<Rightarrow> if ip = [] then None else Some (of_nat (digits_value ip))
         | c # fp \<Rightarrow>
             if c = 46 \<and> list_all is_digit fp \<and> (ip \<noteq> [] \<or> fp \<noteq> [])
             then Some (of_nat (digits_value ip) + of_nat (digits_value fp) / 10 ^ length fp)
             else None)"

datatype py_error = ValueError | KeyError

text \<open>
  \<^verbatim>\<open>float(s)\<close> for a string \<open>s\<close> of decimal digits and points, the only strings
  the parser converts: the numeral's value correctly rounded, \<^verbatim>\<open>ValueError\<close> when
  \<open>s\<close> is no numeral.
\<close>

definition py_float :: "pystr \<Rightarrow> py_error + pyfloat" where
  "py_float s = (case decimal_of s of None \<Rightarrow> Inl ValueError | Some q \<Rightarrow> Inr (round_to_double q))"

section \<open>Upper case\<close>

text \<open>
  \<^verbatim>\<open>str.upper()\<close> replaces every character by its full upper-case mapping, which
  is one to three characters long.  \<open>upper_special\<close> lists the characters whose mapping
  is longer than one character; \<open>upper_simple\<close> lists the others above ASCII as runs
  \<open>(lo, hi, step, u)\<close>: the characters \<open>lo, lo + step, \<dots>, hi\<close> map to
  \<open>u, u + step, \<dots>\<close>.  A character in neither table is its own upper case.
\<close>

definition upper_special :: "(nat \<times> nat list) list" where
  "upper_special =
    [
     (223, [83, 83]), (329, [700, 78]), (496, [74, 780]), (912, [921, 776, 769]),
     (944, [933, 776, 769]), (1415, [1333, 1362]), (7830, [72, 817]), (7831, [84, 776]),
     (7832, [87, 778]), (7833, [89, 778]), (7834, [65, 702]), (8016, [933, 787]),
     (8018, [933, 787, 768]), (8020, [933, 787, 769]), (8022, [933, 787, 834]),
     (8064, [7944, 921]), (8065, [7945, 921]), (8066, [7946, 921]), (8067, [7947, 921]),
     (8068, [7948, 921]), (8069, [7949, 921]), (8070, [7950, 921]), (8071, [7951, 921]),
     (8072, [7944, 921]), (8073, [7945, 921]), (8074, [7946, 921]), (8075, [7947, 921]),
     (8076, [7948, 921]), (8077, [7949, 921]), (8078, [7950, 921]), (8079, [7951, 921]),
     (8080, [7976, 921]), (8081, [7977, 921]), (8082, [7978, 921]), (8083, [7979, 921]),
     (8084, [7980, 921]), (8085, [7981, 921]), (8086, [7982, 921]), (8087, [7983, 921]),
     (8088, [7976, 921]), (8089, [7977, 921]), (8090, [7978, 921]), (8091, [7979, 921]),
     (8092, [7980, 921]), (8093, [7981, 921]), (8094, [7982, 921]), (8095, [7983, 921]),
     (8096, [8040, 921]), (8097, [8041, 921]), (8098, [8042, 921]), (8099, [8043, 921]),
     (8100, [8044, 921]), (8101, [8045, 921]), (8102, [8046, 921]), (8103, [8047, 921]),
     (8104, [8040, 921]), (8105, [8041, 921]), (8106, [8042, 921]), (8107, [8043, 921]),
     (8108, [8044, 921]), (8109, [8045, 921]), (8110, [8046, 921]), (8111, [8047, 921]),
     (8114, [8122, 921]), (8115, [913, 921]), (8116, [902, 921]), (8118, [913, 834]),
     (8119, [913, 834, 921]), (8124, [913, 921]), (8130, [8138, 921]),
     (8131, [919, 921]), (8132, [905, 921]), (8134, [919, 834]), (8135, [919, 834, 921]),
     (8140, [919, 921]), (8146, [921, 776, 768]), (8147, [921, 776, 769]),
     (8150, [921, 834]), (8151, [921, 776, 834]), (8162, [933, 776, 768]),
     (8163, [933, 776, 769]), (8164, [929, 787]), (8166, [933, 834]),
     (8167, [933, 776, 834]), (8178, [8186, 921]), (8179, [937, 921]),
     (8180, [911, 921]), (8182, [937, 834]), (8183, [937, 834, 921]), (8188, [937, 921]),
     (64256, [70, 70]), (64257, [70, 73]), (64258, [70, 76]), (64259, [70, 70, 73]),
     (64260, [70, 70, 76]), (64261, [83, 84]), (64262, [83, 84]), (64275, [1348, 1350]),
     (64276, [1348, 1333]), (64277, [1348, 1339]), (64278, [1358, 1350]),
     (64279, [1348, 1341])]"

definition upper_simple :: "(nat \<times> nat \<times> nat \<times> nat) list" where
  "upper_simple =
    [
     (181, 181, 1, 924), (224, 246, 1, 192), (248, 254, 1, 216), (255, 255, 1, 376),
     (257, 303, 2, 256), (305, 305, 1, 73), (307, 311, 2, 306), (314, 328, 2, 313),
     (331, 375, 2, 330), (378, 382, 2, 377), (383, 383, 1, 83), (384, 384, 1, 579),
     (387, 389, 2, 386), (392, 392, 1, 391), (396, 396, 1, 395), (402, 402, 1, 401),
     (405, 405, 1, 502), (409, 409, 1, 408), (410, 410, 1, 573), (414, 414, 1, 544),
     (417, 421, 2, 416), (424, 424, 1, 423), (429, 429, 1, 428), (432, 432, 1, 431),
     (436, 438, 2, 435), (441, 441, 1, 440), (445, 445, 1, 444), (447, 447, 1, 503),
     (453, 453, 1, 452), (454, 454, 1, 452), (456, 456, 1, 455), (457, 457, 1, 455),
     (459, 459, 1, 458), (460, 460, 1, 458), (462, 476, 2, 461), (477, 477, 1, 398),
     (479, 495, 2, 478), (498, 498, 1, 497), (499, 499, 1, 497), (501, 501, 1, 500),
     (505, 543, 2, 504), (547, 563, 2, 546), (572, 572, 1, 571), (575, 576, 1, 11390),
     (578, 578, 1, 577), (583, 591, 2, 582), (592, 592, 1, 11375), (593, 593, 1, 11373),
     (594, 594, 1, 11376), (595, 595, 1, 385), (596, 596, 1, 390), (598, 599, 1, 393),
     (601, 601, 1, 399), (603, 603, 1, 400), (604, 604, 1, 42923), (608, 608, 1, 403),
     (609, 609, 1, 42924), (611, 611, 1, 404), (613, 613, 1, 42893),
     (614, 614, 1, 42922), (616, 616, 1, 407), (617, 617, 1, 406), (618, 618, 1, 42926),
     (619, 619, 1, 11362), (620, 620, 1, 42925), (623, 623, 1, 412),
     (625, 625, 1, 11374), (626, 626, 1, 413), (629, 629, 1, 415), (637, 637, 1, 11364),
     (640, 640, 1, 422), (642, 642, 1, 42949), (643, 643, 1, 425), (647, 647, 1, 42929),
     (648, 648, 1, 430), (649, 649, 1, 580), (650, 651, 1, 433), (652, 652, 1, 581),
     (658, 658, 1, 439), (669, 669, 1, 42930), (670, 670, 1, 42928), (837, 837, 1, 921),
     (881, 883, 2, 880), (887, 887, 1, 886), (891, 893, 1, 1021), (940, 940, 1, 902),
     (941, 943, 1, 904), (945, 961, 1, 913), (962, 962, 1, 931), (963, 971, 1, 931),
     (972, 972, 1, 908), (973, 974, 1, 910), (976, 976, 1, 914), (977, 977, 1, 920),
     (981, 981, 1, 934), (982, 982, 1, 928), (983, 983, 1, 975), (985, 1007, 2, 984),
     (1008, 1008, 1, 922), (1009, 1009, 1, 929), (1010, 1010, 1, 1017),
     (1011, 1011, 1, 895), (1013, 1013, 1, 917), (1016, 1016, 1, 1015),
     (1019, 1019, 1, 1018), (1072, 1103, 1, 1040), (1104, 1119, 1, 1024),
     (1121, 1153, 2, 1120), (1163, 1215, 2, 1162), (1218, 1230, 2, 1217),
     (1231, 1231, 1, 1216), (1233, 1327, 2, 1232), (1377, 1414, 1, 1329),
     (4304, 4346, 1, 7312), (4349, 4351, 1, 7357), (5112, 5117, 1, 5104),
     (7296, 7296, 1, 1042), (7297, 7297, 1, 1044), (7298, 7298, 1, 1054),
     (7299, 7300, 1, 1057), (7301, 7301, 1, 1058), (7302, 7302, 1, 1066),
     (7303, 7303, 1, 1122), (7304, 7304, 1, 42570), (7545, 7545, 1, 42877),
     (7549, 7549, 1, 11363), (7566, 7566, 1, 42950), (7681, 7829, 2, 7680),
     (7835, 7835, 1, 7776), (7841, 7935, 2, 7840), (7936, 7943, 1, 7944),
     (7952, 7957, 1, 7960), (7968, 7975, 1, 7976), (7984, 7991, 1, 7992),
     (8000, 8005, 1, 8008), (8017, 8023, 2, 8025), (8032, 8039, 1, 8040),
     (8048, 8049, 1, 8122), (8050, 8053, 1, 8136), (8054, 8055, 1, 8154),
     (8056, 8057, 1, 8184), (8058, 8059, 1, 8170), (8060, 8061, 1, 8186),
     (8112, 8113, 1, 8120), (8126, 8126, 1, 921), (8144, 8145, 1, 8152),
     (8160, 8161, 1, 8168), (8165, 8165, 1, 8172), (8526, 8526, 1, 8498),
     (8560, 8575, 1, 8544), (8580, 8580, 1, 8579), (9424, 9449, 1, 9398),
     (11312, 11359, 1, 11264), (11361, 11361, 1, 11360), (11365, 11365, 1, 570),
     (11366, 11366, 1, 574), (11368, 11372, 2, 11367), (11379, 11379, 1, 11378),
     (11382, 11382, 1, 11381), (11393, 11491, 2, 11392), (11500, 11502, 2, 11499),
     (11507, 11507, 1, 11506), (11520, 11557, 1, 4256), (11559, 11559, 1, 4295),
     (11565, 11565, 1, 4301), (42561, 42605, 2, 42560), (42625, 42651, 2, 42624),
     (42787, 42799, 2, 42786), (42803, 42863, 2, 42802), (42874, 42876, 2, 42873),
     (42879, 42887, 2, 42878), (42892, 42892, 1, 42891), (42897, 42899, 2, 42896),
     (42900, 42900, 1, 42948), (42903, 42921, 2, 42902), (42933, 42947, 2, 42932),
     (42952, 42954, 2, 42951), (42961, 42961, 1, 42960), (42967, 42969, 2, 42966),
     (42998, 42998, 1, 42997), (43859, 43859, 1, 42931), (43888, 43967, 1, 5024),
     (65345, 65370, 1, 65313), (66600, 66639, 1, 66560), (66776, 66811, 1, 66736),
     (66967, 66977, 1, 66928), (66979, 66993, 1, 66940), (66995, 67001, 1, 66956),
     (67003, 67004, 1, 66964), (68800, 68850, 1, 68736), (71872, 71903, 1, 71840),
     (93792, 93823, 1, 93760), (125218, 125251, 1, 125184)]"

definition in_run :: "nat \<Rightarrow> nat \<times> nat \<times> nat \<times> nat \<Rightarrow> bool" where
  "in_run c r = (case r of (lo, hi, step, u) \<Rightarrow> lo \<le> c \<and> c \<le> hi \<and> (c - lo) mod step = 0)"

definition upper_cp :: "nat \<Rightarrow> nat list" where
  "upper_cp c =
     (if c < 128 then (if 97 \<le> c \<and> c \<le> 122 then [c - 32] else [c])
      else case map_of upper_special c of
             Some us \<Rightarrow> us
           | None \<Rightarrow>
               (case find (in_run c) upper_simple of
                  Some (lo, hi, step, u) \<Rightarrow> [u + (c - lo)]
                | None \<Rightarrow> [c]))"

definition upper :: "pystr \<Rightarrow> pystr" where
  "upper s = concat (map upper_cp s)"

section \<open>The batch processor\<close>

subsection \<open>Records\<close>

text \<open>
  The parser's records are Python dictionaries from field names to strings and
  booleans, kept here in insertion order.  Reading a key that is absent raises
  \<^verbatim>\<open>KeyError\<close>.
\<close>

datatype pyval = PStr pystr | PBool bool

type_synonym entry = "(string \<times> pyval) list"

definition getitem :: "entry \<Rightarrow> string \<Rightarrow> py_error + pyval" where
  "getitem e k = (case map_of e k of None \<Rightarrow> Inl KeyError | Some v \<Rightarrow> Inr v)"

subsection \<open>\<^verbatim>\<open>format_output\<close>\<close>

text \<open>The dictionary built for one entry; the five values are read in this order.\<close>

definition format_entry :: "entry \<Rightarrow> py_error + entry" where
  "format_entry e =
     (case getitem e ''test_name'' of Inl x \<Rightarrow> Inl x | Inr a \<Rightarrow>
      case getitem e ''test_value'' of Inl x \<Rightarrow> Inl x | Inr b \<Rightarrow>
      case getitem e ''bio_reference_range'' of Inl x \<Rightarrow> Inl x | Inr c \<Rightarrow>
      case getitem e ''test_unit'' of Inl x \<Rightarrow> Inl x | Inr d \<Rightarrow>
      case getitem e ''lab_test_out_of_range'' of Inl x \<Rightarrow> Inl x | Inr f \<Rightarrow>
        Inr [(''test_name'', a), (''test_value'', b), (''bio_reference_range'', c),
             (''test_unit'', d), (''lab_test_out_of_range'', f)])"

text \<open>The loop of \<^verbatim>\<open>format_output\<close>; the second argument is \<^verbatim>\<open>formatted_data\<close>.\<close>

fun format_loop :: "entry list \<Rightarrow> entry list \<Rightarrow> py_error + entry list" where
  "format_loop [] formatted_data = Inr formatted_data"
| "format_loop (e # es) formatted_data =
     (case format_entry e of
        Inl x \<Rightarrow> Inl x
      | Inr d \<Rightarrow> format_loop es (formatted_data @ [d]))"

definition format_output :: "entry list \<Rightarrow> py_error + entry list" where
  "format_output parsed_data = format_loop parsed_data []"

subsection \<open>\<^verbatim>\<open>parse_lab_tests\<close>\<close>

text \<open>\<^verbatim>\<open>g.strip() if g else ""\<close> for a group \<open>g\<close> of the match, \<open>None\<close> when unset.\<close>

definition cleaned :: "pystr option \<Rightarrow> pystr" where
  "cleaned g = (case g of None \<Rightarrow> [] | Some t \<Rightarrow> if t = [] then [] else strip t)"

text \<open>\<^verbatim>\<open>name.strip().upper() if name else ""\<close>.\<close>

definition cleaned_upper :: "pystr option \<Rightarrow> pystr" where
  "cleaned_upper g = (case g of None \<Rightarrow> [] | Some t \<Rightarrow> if t = [] then [] else upper (strip t))"

text \<open>
  \<^verbatim>\<open>low, high = map(float, parts)\<close>: the conversions run one by one while the
  targets are filled, and a third part is still converted before the unpacking fails
  with \<^verbatim>\<open>ValueError\<close> for too many values; too few values fail the same way.
\<close>

fun unpack2 :: "(py_error + 'a) list \<Rightarrow> py_error + 'a \<times> 'a" where
  "unpack2 [] = Inl ValueError"
| "unpack2 [a] = (case a of Inl x \<Rightarrow> Inl x | Inr l \<Rightarrow> Inl ValueError)"
| "unpack2 [a, b] =
     (case a of Inl x \<Rightarrow> Inl x | Inr l \<Rightarrow>
      case b of Inl x \<Rightarrow> Inl x | Inr h \<Rightarrow> Inr (l, h))"
| "unpack2 (a # b # c # ds) =
     (case a of Inl x \<Rightarrow> Inl x | Inr l \<Rightarrow>
      case b of Inl x \<Rightarrow> Inl x | Inr h \<Rightarrow>
      case c of Inl x \<Rightarrow> Inl x | Inr z \<Rightarrow> Inl ValueError)"

text \<open>
  The computation of \<^verbatim>\<open>is_out_of_range\<close>, with its own
  \<^verbatim>\<open>try\<close>/\<^verbatim>\<open>except ValueError\<close>.
\<close>

definition range_check :: "pystr \<Rightarrow> pyfloat \<Rightarrow> py_error + bool" where
  "range_check ref_range float_value =
     (if ref_range \<noteq> [] then
        (case unpack2 (map py_float (py_split 45 ref_range)) of
           Inr (low, high) \<Rightarrow> Inr (\<not> (float_le low float_value \<and> float_le float_value high))
         | Inl ValueError \<Rightarrow> Inr False
         | Inl x \<Rightarrow> Inl x)
      else Inr False)"

definition make_entry :: "pystr \<Rightarrow> pystr \<Rightarrow> pystr \<Rightarrow> pystr \<Rightarrow> bool \<Rightarrow> entry" where
  "make_entry name val ref_range unit is_out_of_range =
     [(''test_name'', PStr name), (''test_value'', PStr val),
      (''bio_reference_range'', PStr ref_range), (''test_unit'', PStr unit),
      (''lab_test_out_of_range'', PBool is_out_of_range)]"

text \<open>The body of the outer \<^verbatim>\<open>try\<close>: the new value of \<^verbatim>\<open>results\<close>.\<close>

definition try_append ::
  "pystr \<Rightarrow> pystr \<Rightarrow> pystr \<Rightarrow> pystr \<Rightarrow> entry list \<Rightarrow> py_error + entry list" where
  "try_append name val unit ref_range results =
     (case py_float val of
        Inl x \<Rightarrow> Inl x
      | Inr float_value \<Rightarrow>
          (case range_check ref_range float_value of
             Inl x \<Rightarrow> Inl x
           | Inr is_out_of_range \<Rightarrow>
               Inr (results @ [make_entry name val ref_range unit is_out_of_range])))"

text \<open>
  One pass of the loop over the lines: the new value of \<^verbatim>\<open>results\<close>, or the
  exception that leaves the loop.  Logging is left out.
\<close>

definition process_line :: "pystr \<Rightarrow> entry list \<Rightarrow> py_error + entry list" where
  "process_line line results =
     (if strip line = [] then Inr results
      else case re_match pattern (strip line) of
             None \<Rightarrow> Inr results
           | Some caps \<Rightarrow>
               (let name = cleaned_upper (caps 1);
                    val = cleaned (caps 2);
                    unit = cleaned (caps 3);
                    ref_range = cleaned (caps 4)
                in if name = [] \<or> val = [] then Inr results
                   else case try_append name val unit ref_range results of
                          Inl ValueError \<Rightarrow> Inr results
                        | Inl x \<Rightarrow> Inl x
                        | Inr results' \<Rightarrow> Inr results'))"

fun parse_loop :: "pystr list \<Rightarrow> entry list \<Rightarrow> py_error + entry list" where
  "parse_loop [] results = Inr results"
| "parse_loop (line # lines) results =
     (case process_line line results of
        Inl x \<Rightarrow> Inl x
      | Inr results' \<Rightarrow> parse_loop lines results')"

definition parse_lab_tests :: "pystr \<Rightarrow> py_error + entry list" where
  "parse_lab_tests text = parse_loop (splitlines text) []"

subsection \<open>\<^verbatim>\<open>extract_text_from_image\<close>\<close>

text \<open>
  OpenCV and Tesseract are outside the program.  Each of their calls either returns
  or raises an exception derived from \<^verbatim>\<open>Exception\<close>; what a call does is given by
  an environment.  \<^verbatim>\<open>cv2.imread\<close> returns \<^verbatim>\<open>None\<close> for a file it cannot decode.
\<close>

datatype exn = Exn pystr

datatype 'a outcome = Raises exn | Returns 'a

record 'img ocr_engine =
  imread :: "pystr \<Rightarrow> 'img option outcome"
  cvtColor :: "'img \<Rightarrow> 'img outcome"
  threshold :: "'img \<Rightarrow> 'img outcome"
  medianBlur :: "'img \<Rightarrow> 'img outcome"
  image_to_string :: "'img \<Rightarrow> pystr outcome"

text \<open>The body of the \<^verbatim>\<open>try\<close>.\<close>

definition ocr_steps :: "'img ocr_engine \<Rightarrow> pystr \<Rightarrow> pystr outcome" where
  "ocr_steps eng image_path =
     (case imread eng image_path of
        Raises x \<Rightarrow> Raises x
      | Returns None \<Rightarrow> Returns []
      | Returns (Some img) \<Rightarrow>
     (case cvtColor eng img of
        Raises x \<Rightarrow> Raises x
      | Returns gray \<Rightarrow>
     (case threshold eng gray of
        Raises x \<Rightarrow> Raises x
      | Returns binary \<Rightarrow>
     (case medianBlur eng binary of
        Raises x \<Rightarrow> Raises x
      | Returns denoised \<Rightarrow> image_to_string eng denoised))))"

text \<open>\<^verbatim>\<open>except Exception\<close>: whatever was raised, the result is the empty string.\<close>

definition extract_text_from_image :: "'img ocr_engine \<Rightarrow> pystr \<Rightarrow> pystr" where
  "extract_text_from_image eng image_path =
     (case ocr_steps eng image_path of Raises x \<Rightarrow> [] | Returns text \<Rightarrow> text)"

section \<open>The service\<close>

text \<open>
  The handler of \<^verbatim>\<open>POST /get-lab-tests\<close>.  The file system is the set of paths
  that exist.  The environment gives the path the handler computed for the upload and
  says which of its file operations raise: opening the file for writing (no file then),
  copying the upload into it (the file exists by then), removing it.
\<close>

record 'img request_env =
  engine :: "'img ocr_engine"
  file_path :: pystr
  open_raises :: "exn option"
  copy_raises :: "exn option"
  remove_raises :: "exn option"

datatype raised = Library exn | Python py_error

text \<open>
  \<open>Success d\<close> is \<^verbatim>\<open>{"is_success": True, "data": d}\<close>; \<open>Failure 500 e\<close> is the
  response of the \<^verbatim>\<open>except\<close> clause, with status 500 and the message of \<open>e\<close>.
\<close>

datatype response = Success "entry list" | Failure nat raised

definition get_lab_tests :: "'img request_env \<Rightarrow> pystr set \<Rightarrow> response \<times> pystr set" where
  "get_lab_tests env files =
     (case open_raises env of
        Some x \<Rightarrow> (Failure 500 (Library x), files)
      | None \<Rightarrow>
     (let files1 = insert (file_path env) files in
      case copy_raises env of
        Some x \<Rightarrow> (Failure 500 (Library x), files1)
      | None \<Rightarrow>
     (let text = extract_text_from_image (engine env) (file_path env) in
      case parse_lab_tests text of
        Inl x \<Rightarrow> (Failure 500 (Python x), files1)
      | Inr parsed_data \<Rightarrow>
     (case format_output parsed_data of
        Inl x \<Rightarrow> (Failure 500 (Python x), files1)
      | Inr formatted_data \<Rightarrow>
     (case remove_raises env of
        Some x \<Rightarrow> (Failure 500 (Library x), files1)
      | None \<Rightarrow> (Success formatted_data, files1 - {file_path env}))))))"

section \<open>Auxiliary notions\<close>

text \<open>The dictionaries that \<^verbatim>\<open>parse_lab_tests\<close> builds.\<close>

definition made :: "entry \<Rightarrow> bool" where
  "made e \<longleftrightarrow> (\<exists>n v r u b. e = make_entry n v r u b)"

text \<open>
  What the backtracking search finds for the pattern, written as a scan from left to
  right.  After the name, every part of the pattern takes the longest run of its class:
  the rest of the pattern can always match, so no shorter choice is ever tried with
  success.  \<open>range_at s\<close> is group 4 at \<open>s\<close>; \<open>skip_one a s\<close> drops one leading
  \<open>a\<close>.
\<close>

definition range_at :: "pystr \<Rightarrow> pystr option" where
  "range_at s =
     (let a = takeWhile num_class s in
      case dropWhile num_class s of
        [] \<Rightarrow> None
      | c # t \<Rightarrow>
          (let b = takeWhile num_class t
           in if a \<noteq> [] \<and> c = 45 \<and> b \<noteq> [] then Some (a @ 45 # b) else None))"

definition skip_one :: "nat \<Rightarrow> pystr \<Rightarrow> pystr" where
  "skip_one a s = (case s of [] \<Rightarrow> [] | c # t \<Rightarrow> if c = a then t else s)"

definition after_paren :: "pystr \<Rightarrow> captures \<Rightarrow> captures" where
  "after_paren s caps = (case range_at s of None \<Rightarrow> caps | Some r \<Rightarrow> caps(4 \<mapsto> r))"

definition after_unit :: "pystr \<Rightarrow> captures \<Rightarrow> captures" where
  "after_unit s caps = after_paren (skip_one 40 (dropWhile is_space s)) caps"

definition after_value :: "pystr \<Rightarrow> captures \<Rightarrow> captures" where
  "after_value s caps =
     (let t = dropWhile is_space s; u = takeWhile unit_class t
      in if u = [] then after_unit t caps
         else after_unit (dropWhile unit_class t) (caps(3 \<mapsto> u)))"

text \<open>The pattern after group 1, at \<open>s\<close>: separators, then the value and the rest.\<close>

definition value_groups :: "pystr \<Rightarrow> captures \<Rightarrow> captures option" where
  "value_groups s caps =
     (let t = dropWhile sep_class s; v = takeWhile num_class t
      in if takeWhile sep_class s = [] \<or> v = [] then None
         else Some (after_value (dropWhile num_class t) (caps(2 \<mapsto> v))))"

text \<open>
  Group 1 is lazy: the name is the shortest prefix without a newline after which the
  rest of the pattern matches.
\<close>

definition match_from :: "pystr \<Rightarrow> nat \<Rightarrow> captures option" where
  "match_from s k = value_groups (drop k s) [1 \<mapsto> take k s]"

definition pattern_match :: "pystr \<Rightarrow> captures option" where
  "pattern_match s = first_match (match_from s) [0 ..< Suc (length (takeWhile dot s))]"

text \<open>Parts of the pattern.\<close>

abbreviation num_plus :: node where "num_plus \<equiv> Rep num_class 1 None True"
abbreviation spaces :: node where "spaces \<equiv> Rep is_space 0 None True"
abbreviation opt_char :: "nat \<Rightarrow> node" where "opt_char a \<equiv> Rep (one_of a) 0 (Some 1) True"
abbreviation range_nodes :: "node list" where
  "range_nodes \<equiv> [num_plus, Rep (one_of 45) 1 (Some 1) True, num_plus]"
abbreviation unit_nodes :: "node list" where
  "unit_nodes \<equiv> [Rep unit_class 1 None True]"

abbreviation tail_after_unit :: "node list" where
  "tail_after_unit \<equiv> [spaces, opt_char 40, OptGrp 4 range_nodes, opt_char 41]"

abbreviation tail_after_value :: "node list" where
  "tail_after_value \<equiv> spaces # OptGrp 3 unit_nodes # tail_after_unit"

text \<open>The shape of group 4: numerals on both sides of one hyphen.\<close>

definition range_shaped :: "pystr \<Rightarrow> bool" where
  "range_shaped r \<longleftrightarrow>
     (\<exists>a b. r = a @ 45 # b \<and> a \<noteq> [] \<and> b \<noteq> [] \<and> list_all num_class a \<and> list_all num_class b)"

section \<open>Exceptions inside the parser\<close>

lemma py_float_error: "py_float s = Inl x \<Longrightarrow> x = ValueError"
  by (auto simp: py_float_def split: option.splits)

lemma unpack2_error:
  "unpack2 (map py_float ps) = Inl x \<Longrightarrow> x = ValueError"
proof (cases "map py_float ps" rule: unpack2.cases)
  case 1
  then show "unpack2 (map py_float ps) = Inl x \<Longrightarrow> x = ValueError" by simp
next
  case (2 a)
  then have "a \<in> set (map py_float ps)" by simp
  then have "\<And>y. a = Inl y \<Longrightarrow> y = ValueError" using py_float_error by auto
  with 2 show "unpack2 (map py_float ps) = Inl x \<Longrightarrow> x = ValueError"
    by (auto split: sum.splits)
next
  case (3 a b)
  then have "a \<in> set (map py_float ps)" "b \<in> set (map py_float ps)" by simp_all
  then have "\<And>y. a = Inl y \<Longrightarrow> y = ValueError" "\<And>y. b = Inl y \<Longrightarrow> y = ValueError"
    using py_float_error by auto
  with 3 show "unpack2 (map py_float ps) = Inl x \<Longrightarrow> x = ValueError"
    by (auto split: sum.splits)
next
  case (4 a b c ds)
  then have "a \<in> set (map py_float ps)" "b \<in> set (map py_float ps)"
    "c \<in> set (map py_float ps)" by simp_all
  then have "\<And>y. a = Inl y \<Longrightarrow> y = ValueError" "\<And>y. b = Inl y \<Longrightarrow> y = ValueError"
    "\<And>y. c = Inl y \<Longrightarrow> y = ValueError"
    using py_float_error by auto
  with 4 show "unpack2 (map py_float ps) = Inl x \<Longrightarrow> x = ValueError"
    by (auto split: sum.splits)
qed

lemma range_check_returns: "\<exists>b. range_check r v = Inr b"
proof (cases "r = []")
  case True
  then have "range_check r v = Inr False" by (simp add: range_check_def)
  then show ?thesis by blast
next
  case False
  show ?thesis
  proof (cases "unpack2 (map py_float (py_split 45 r))")
    case (Inl x)
    then have "x = ValueError" by (rule unpack2_error)
    with Inl False have "range_check r v = Inr False" by (simp add: range_check_def)
    then show ?thesis by blast
  next
    case (Inr lh)
    with False have "range_check r v =
        Inr (\<not> (float_le (fst lh) v \<and> float_le v (snd lh)))"
      by (simp add: range_check_def split: prod.splits)
    then show ?thesis by blast
  qed
qed

lemma try_append_cases:
  "try_append n v u r results = Inl ValueError \<or>
   (\<exists>b. try_append n v u r results = Inr (results @ [make_entry n v r u b]))"
proof (cases "py_float v")
  case (Inl x)
  then show ?thesis
    using py_float_error [OF Inl] by (simp add: try_append_def)
next
  case (Inr fv)
  obtain b where "range_check r fv = Inr b"
    using range_check_returns by blast
  with Inr have "try_append n v u r results = Inr (results @ [make_entry n v r u b])"
    by (simp add: try_append_def)
  then show ?thesis by blast
qed

lemma process_line_cases:
  "process_line line results = Inr results \<or>
   (\<exists>n v u r b. process_line line results = Inr (results @ [make_entry n v r u b]))"
proof (cases "strip line = []")
  case True
  then show ?thesis by (simp add: process_line_def)
next
  case False
  show ?thesis
  proof (cases "re_match pattern (strip line)")
    case None
    with False show ?thesis by (simp add: process_line_def)
  next
    case (Some caps)
    define n where "n = cleaned_upper (caps 1)"
    define v where "v = cleaned (caps 2)"
    define u where "u = cleaned (caps 3)"
    define r where "r = cleaned (caps 4)"
    have pl: "process_line line results =
        (if n = [] \<or> v = [] then Inr results
         else case try_append n v u r results of
                Inl ValueError \<Rightarrow> Inr results | Inl x \<Rightarrow> Inl x | Inr res \<Rightarrow> Inr res)"
      using False Some by (simp add: process_line_def n_def v_def u_def r_def)
    from try_append_cases [of n v u r results] show ?thesis
    proof
      assume "try_append n v u r results = Inl ValueError"
      with pl show ?thesis by simp
    next
      assume "\<exists>b. try_append n v u r results = Inr (results @ [make_entry n v r u b])"
      then obtain b where "try_append n v u r results = Inr (results @ [make_entry n v r u b])"
        by blast
      with pl have "process_line line results = Inr results \<or>
          process_line line results = Inr (results @ [make_entry n v r u b])"
        by simp
      then show ?thesis by blast
    qed
  qed
qed

lemma made_make_entry: "made (make_entry n v r u b)"
  unfolding made_def by blast

lemma parse_loop_returns:
  "list_all made results \<Longrightarrow> \<exists>rs. parse_loop ls results = Inr rs \<and> list_all made rs"
proof (induction ls arbitrary: results)
  case Nil
  then show ?case by simp
next
  case (Cons l ls)
  have "\<exists>res. process_line l results = Inr res \<and> list_all made res"
    using process_line_cases [of l results] Cons.prems made_make_entry by auto
  then obtain res where res: "process_line l results = Inr res" "list_all made res"
    by blast
  from Cons.IH [OF res(2)] res(1) show ?case by simp
qed

lemma format_entry_made: "format_entry (make_entry n v r u b) = Inr (make_entry n v r u b)"
  by (simp add: format_entry_def getitem_def make_entry_def)

lemma format_loop_made:
  "list_all made es \<Longrightarrow> format_loop es acc = Inr (acc @ es)"
proof (induction es arbitrary: acc)
  case Nil
  then show ?case by simp
next
  case (Cons e es)
  then obtain n v r u b where e: "e = make_entry n v r u b" by (auto simp: made_def)
  from Cons have "format_loop es (acc @ [e]) = Inr ((acc @ [e]) @ es)" by simp
  then show ?case by (simp add: e format_entry_made)
qed

section \<open>Character classes\<close>

lemma is_digit_iff:
  "is_digit c \<longleftrightarrow> (48 \<le> c \<and> c \<le> 57) \<or> (128 \<le> c \<and> (\<exists>z \<in> set decimal_zeros. z \<le> c \<and> c < z + 10))"
proof -
  have "(find (\<lambda>z. z \<le> c \<and> c < z + 10) decimal_zeros \<noteq> None) =
        (\<exists>z \<in> set decimal_zeros. z \<le> c \<and> c < z + 10)"
    unfolding find_None_iff by blast
  then show ?thesis
    by (simp add: is_digit_def decimal_value_def)
qed

lemma is_digit_range:
  assumes "is_digit c"
  shows "(48 \<le> c \<and> c \<le> 57) \<or> (1632 \<le> c \<and> c \<le> 4249) \<or> (6112 \<le> c \<and> c \<le> 7257) \<or> 42528 \<le> c"
proof -
  have "\<forall>z \<in> set decimal_zeros.
          (48 \<le> z \<and> z \<le> 48) \<or> (1632 \<le> z \<and> z \<le> 4240) \<or> (6112 \<le> z \<and> z \<le> 7248) \<or> 42528 \<le> z"
    by (simp add: decimal_zeros_def)
  with assms show ?thesis
    unfolding is_digit_iff by fastforce
qed

lemma digit_not_space: "is_digit c \<Longrightarrow> \<not> is_space c"
  using is_digit_range [of c] by (auto simp: is_space_def)

lemma digit_not_punct: "is_digit c \<Longrightarrow> c \<noteq> 58 \<and> c \<noteq> 46 \<and> c \<noteq> 45"
  using is_digit_range [of c] by auto

lemma num_not_sep: "num_class c \<Longrightarrow> \<not> sep_class c"
  using digit_not_space [of c] digit_not_punct [of c]
  by (auto simp: num_class_def sep_class_def is_space_def)

lemma num_not_hyphen: "num_class c \<Longrightarrow> \<not> one_of 45 c"
  using digit_not_punct [of c] by (auto simp: num_class_def one_of_def)

lemma num_not_space: "num_class c \<Longrightarrow> \<not> is_space c"
  using num_not_sep [of c] by (simp add: sep_class_def)

section \<open>The matcher on the pattern\<close>

text \<open>
  A greedy repetition whose shorter counts all fail, or whose longest count succeeds,
  is decided by its longest count.
\<close>

lemma first_match_None: "(\<And>k. k \<in> set ks \<Longrightarrow> f k = None) \<Longrightarrow> first_match f ks = None"
  by (induction ks) simp_all

lemma first_match_cong:
  "(\<And>k. k \<in> set ks \<Longrightarrow> f k = g k) \<Longrightarrow> first_match f ks = first_match g ks"
  by (induction ks) (auto split: option.splits)

lemma first_match_greedy:
  assumes "\<And>k. lo \<le> k \<Longrightarrow> k < mx \<Longrightarrow> f k = None"
  shows "first_match f (rev [lo ..< Suc mx]) = (if lo \<le> mx then f mx else None)"
proof (cases "lo \<le> mx")
  case True
  have "first_match f (rev [lo ..< mx]) = None"
    using assms by (intro first_match_None) auto
  with True show ?thesis by (simp split: option.splits)
next
  case False
  then show ?thesis by simp
qed

lemma rep_greedy:
  assumes mx: "mx = (case hi of None \<Rightarrow> length (takeWhile cls s)
                       | Some h \<Rightarrow> min h (length (takeWhile cls s)))"
    and short: "\<And>k. lo \<le> k \<Longrightarrow> k < mx \<Longrightarrow> run_nodes ns (drop k s) caps = None"
  shows "run_nodes (Rep cls lo hi True # ns) s caps =
         (if lo \<le> mx then run_nodes ns (drop mx s) caps else None)"
proof -
  have "candidates lo hi True (length (takeWhile cls s)) = rev [lo ..< Suc mx]"
    by (simp add: candidates_def Let_def mx)
  then have "run_nodes (Rep cls lo hi True # ns) s caps =
             first_match (\<lambda>k. run_nodes ns (drop k s) caps) (rev [lo ..< Suc mx])"
    by simp
  also have "\<dots> = (if lo \<le> mx then run_nodes ns (drop mx s) caps else None)"
    by (rule first_match_greedy) (rule short)
  finally show ?thesis .
qed

lemma rep_greedy_first:
  assumes mx: "mx = (case hi of None \<Rightarrow> length (takeWhile cls s)
                       | Some h \<Rightarrow> min h (length (takeWhile cls s)))"
    and "lo \<le> mx" and hit: "run_nodes ns (drop mx s) caps = Some r"
  shows "run_nodes (Rep cls lo hi True # ns) s caps = Some r"
proof -
  have "candidates lo hi True (length (takeWhile cls s)) = mx # rev [lo ..< mx]"
    using \<open>lo \<le> mx\<close> by (simp add: candidates_def Let_def mx)
  then show ?thesis by (simp add: hit)
qed

lemma rep_none:
  assumes "mx = (case hi of None \<Rightarrow> length (takeWhile cls s)
                  | Some h \<Rightarrow> min h (length (takeWhile cls s)))"
    and "mx < lo"
  shows "run_nodes (Rep cls lo hi greedy # ns) s caps = None"
proof -
  have "candidates lo hi greedy (length (takeWhile cls s)) = []"
    using assms by (simp add: candidates_def Let_def)
  then show ?thesis by simp
qed

lemma head_in_run:
  assumes "k < length (takeWhile P s)"
  shows "\<exists>c t. drop k s = c # t \<and> P c"
proof -
  have k: "k < length s"
    using assms length_takeWhile_le [of P s] by simp
  have "P (takeWhile P s ! k)"
    using assms nth_mem set_takeWhileD by fastforce
  then have "P (s ! k)"
    using assms by (simp add: takeWhile_nth)
  moreover have "drop k s = s ! k # drop (Suc k) s"
    using k by (simp add: Cons_nth_drop_Suc)
  ultimately show ?thesis by blast
qed

lemma take_minus_dropWhile: "take (length s - length (dropWhile P s)) s = takeWhile P s"
proof -
  have "length s - length (dropWhile P s) = length (takeWhile P s)"
    by (metis add_diff_cancel_right' length_append takeWhile_dropWhile_id)
  then show ?thesis by (simp add: takeWhile_eq_take [symmetric])
qed

lemma rep_plus_total:
  assumes "\<And>t. run_nodes ns t caps = Some (g t)"
  shows "run_nodes (Rep cls 1 None True # ns) s caps =
         (if takeWhile cls s = [] then None else Some (g (dropWhile cls s)))"
proof (cases "takeWhile cls s = []")
  case True
  have "run_nodes (Rep cls 1 None True # ns) s caps = None"
    by (rule rep_none [where mx = 0]) (simp_all add: True)
  with True show ?thesis by (simp del: run_nodes.simps)
next
  case False
  then have "1 \<le> length (takeWhile cls s)" by (cases "takeWhile cls s") simp_all
  then have "run_nodes (Rep cls 1 None True # ns) s caps = Some (g (drop (length (takeWhile cls s)) s))"
    by (intro rep_greedy_first [where mx = "length (takeWhile cls s)"]) (simp_all add: assms)
  with False show ?thesis by (simp del: run_nodes.simps add: dropWhile_eq_drop)
qed

lemma rep_star_total:
  assumes "\<And>t. run_nodes ns t caps = Some (g t)"
  shows "run_nodes (Rep cls 0 None True # ns) s caps = Some (g (dropWhile cls s))"
proof -
  have "run_nodes (Rep cls 0 None True # ns) s caps = Some (g (drop (length (takeWhile cls s)) s))"
    by (intro rep_greedy_first [where mx = "length (takeWhile cls s)"]) (simp_all add: assms)
  then show ?thesis by (simp del: run_nodes.simps add: dropWhile_eq_drop)
qed

lemma drop_one_of: "drop (min 1 (length (takeWhile (one_of a) s))) s = skip_one a s"
  by (cases s) (simp_all add: skip_one_def one_of_def)

lemma rep_opt_total:
  assumes "\<And>t. run_nodes ns t caps = Some (g t)"
  shows "run_nodes (opt_char a # ns) s caps = Some (g (skip_one a s))"
proof -
  have "run_nodes (opt_char a # ns) s caps =
        Some (g (drop (min 1 (length (takeWhile (one_of a) s))) s))"
    by (intro rep_greedy_first [where mx = "min 1 (length (takeWhile (one_of a) s))"])
       (simp_all add: assms)
  then show ?thesis by (simp only: drop_one_of)
qed

lemma tail_rparen: "run_nodes [opt_char 41] s caps = Some caps"
  by (rule rep_opt_total [where g = "\<lambda>t. caps"]) simp

lemma rep_char:
  "run_nodes (Rep (one_of a) 1 (Some 1) True # ns) s caps =
   (case s of [] \<Rightarrow> None | c # t \<Rightarrow> if c = a then run_nodes ns t caps else None)"
proof -
  define mx where "mx = min 1 (length (takeWhile (one_of a) s))"
  have "run_nodes (Rep (one_of a) 1 (Some 1) True # ns) s caps =
        (if 1 \<le> mx then run_nodes ns (drop mx s) caps else None)"
  proof (rule rep_greedy)
    show "mx = (case Some 1 of None \<Rightarrow> length (takeWhile (one_of a) s)
                | Some h \<Rightarrow> min h (length (takeWhile (one_of a) s)))"
      by (simp add: mx_def)
  next
    fix k :: nat
    assume "1 \<le> k" "k < mx"
    then have False by (simp add: mx_def)
    then show "run_nodes ns (drop k s) caps = None" ..
  qed
  then show ?thesis
    by (cases s) (simp_all del: run_nodes.simps add: mx_def one_of_def)
qed

lemma close_then_rparen:
  "run_nodes [Close n s0, opt_char 41] t caps = Some (caps(n \<mapsto> take (length s0 - length t) s0))"
proof -
  have "run_nodes [Close n s0, opt_char 41] t caps =
        run_nodes [opt_char 41] t (caps(n \<mapsto> take (length s0 - length t) s0))"
    by (simp only: run_nodes.simps)
  then show ?thesis by (simp only: tail_rparen)
qed

lemma range_group:
  "run_nodes (range_nodes @ [Close 4 s, opt_char 41]) s caps =
   map_option (\<lambda>r. caps(4 \<mapsto> r)) (range_at s)"
proof -
  let ?hy = "Rep (one_of 45) 1 (Some 1) True"
  let ?R = "[num_plus, Close 4 s, opt_char 41]"
  define a where "a = takeWhile num_class s"
  define t where "t = dropWhile num_class s"
  have short: "run_nodes (?hy # ?R) (drop k s) caps = None"
    if k: "k < length (takeWhile num_class s)" for k
  proof -
    obtain c u where "drop k s = c # u" "num_class c"
      using head_in_run [OF k] by blast
    then show ?thesis
      using num_not_hyphen [of c] by (simp only: rep_char) (simp add: one_of_def)
  qed
  have "run_nodes (num_plus # ?hy # ?R) s caps =
        (if 1 \<le> length a then run_nodes (?hy # ?R) (drop (length a) s) caps else None)"
    unfolding a_def by (rule rep_greedy) (simp, rule short)
  then have step1: "run_nodes (num_plus # ?hy # ?R) s caps =
        (if a = [] then None else run_nodes (?hy # ?R) t caps)"
    by (cases a) (simp_all del: run_nodes.simps add: a_def t_def dropWhile_eq_drop)
  have step3: "run_nodes ?R u caps =
        (if takeWhile num_class u = [] then None
         else Some (caps(4 \<mapsto> take (length s - length (dropWhile num_class u)) s)))" for u
    by (rule rep_plus_total) (rule close_then_rparen)
  have s: "s = a @ t" by (simp add: a_def t_def)
  show ?thesis
  proof (cases t)
    case Nil
    then have "range_at s = None"
      by (simp only: range_at_def Let_def t_def [symmetric] list.case)
    moreover have "run_nodes (num_plus # ?hy # ?R) s caps = None"
      by (simp only: step1 rep_char Nil) simp
    ultimately show ?thesis by (simp del: run_nodes.simps)
  next
    case (Cons c u)
    define b where "b = takeWhile num_class u"
    have ra: "range_at s = (if a \<noteq> [] \<and> c = 45 \<and> b \<noteq> [] then Some (a @ 45 # b) else None)"
      by (simp only: range_at_def Let_def t_def [symmetric] a_def [symmetric] Cons list.case
            b_def [symmetric])
    have su: "s = (a @ c # b) @ dropWhile num_class u"
      by (simp add: s Cons b_def)
    have tk: "take (length s - length (dropWhile num_class u)) s = a @ c # b"
      by (subst su, subst su) simp
    have "run_nodes (num_plus # ?hy # ?R) s caps =
          (if a = [] then None else if c = 45 then
             (if b = [] then None else Some (caps(4 \<mapsto> a @ c # b))) else None)"
      by (simp only: step1 rep_char Cons step3 tk b_def list.case)
    with ra show ?thesis by (simp del: run_nodes.simps)
  qed
qed

lemma tail_range:
  "run_nodes [OptGrp 4 range_nodes, opt_char 41] s caps = Some (after_paren s caps)"
proof -
  have "run_nodes [Grp 4 range_nodes, opt_char 41] s caps =
        run_nodes (range_nodes @ [Close 4 s, opt_char 41]) s caps"
    by (simp only: run_nodes.simps)
  then have g: "run_nodes [Grp 4 range_nodes, opt_char 41] s caps =
        map_option (\<lambda>r. caps(4 \<mapsto> r)) (range_at s)"
    by (simp only: range_group)
  have "run_nodes [OptGrp 4 range_nodes, opt_char 41] s caps =
        (case map_option (\<lambda>r. caps(4 \<mapsto> r)) (range_at s) of
           Some r \<Rightarrow> Some r | None \<Rightarrow> Some caps)"
    by (simp only: run_nodes.simps(5) g tail_rparen)
  then show ?thesis
    by (cases "range_at s") (simp_all del: run_nodes.simps add: after_paren_def)
qed

lemma tail_unit:
  "run_nodes [spaces, opt_char 40, OptGrp 4 range_nodes, opt_char 41] s caps =
   Some (after_unit s caps)"
proof -
  have "run_nodes [opt_char 40, OptGrp 4 range_nodes, opt_char 41] t caps =
        Some (after_paren (skip_one 40 t) caps)" for t
    by (rule rep_opt_total) (rule tail_range)
  then have "run_nodes [spaces, opt_char 40, OptGrp 4 range_nodes, opt_char 41] s caps =
        Some (after_paren (skip_one 40 (dropWhile is_space s)) caps)"
    by (rule rep_star_total)
  then show ?thesis by (simp only: after_unit_def)
qed

lemma unit_group:
  "run_nodes (OptGrp 3 unit_nodes # tail_after_unit) s caps =
   Some (if takeWhile unit_class s = [] then after_unit s caps
         else after_unit (dropWhile unit_class s) (caps(3 \<mapsto> takeWhile unit_class s)))"
proof -
  have cl: "run_nodes (Close 3 s # tail_after_unit) t caps =
        Some (after_unit t (caps(3 \<mapsto> take (length s - length t) s)))" for t
    by (simp only: run_nodes.simps(4) tail_unit)
  have "run_nodes (Grp 3 unit_nodes # tail_after_unit) s caps =
        run_nodes (Rep unit_class 1 None True # Close 3 s # tail_after_unit) s caps"
    by (simp only: run_nodes.simps append.simps)
  also have "\<dots> = (if takeWhile unit_class s = [] then None
        else Some (after_unit (dropWhile unit_class s)
               (caps(3 \<mapsto> take (length s - length (dropWhile unit_class s)) s))))"
    by (rule rep_plus_total) (rule cl)
  finally have g: "run_nodes (Grp 3 unit_nodes # tail_after_unit) s caps =
        (if takeWhile unit_class s = [] then None
         else Some (after_unit (dropWhile unit_class s) (caps(3 \<mapsto> takeWhile unit_class s))))"
    by (simp only: take_minus_dropWhile)
  have "run_nodes (OptGrp 3 unit_nodes # tail_after_unit) s caps =
        (case run_nodes (Grp 3 unit_nodes # tail_after_unit) s caps of
           Some r \<Rightarrow> Some r | None \<Rightarrow> run_nodes tail_after_unit s caps)"
    by (simp only: run_nodes.simps(5))
  then show ?thesis
    by (simp only: g tail_unit) simp
qed

lemma tail_value:
  "run_nodes tail_after_value s caps = Some (after_value s caps)"
proof -
  have "run_nodes tail_after_value s caps =
        Some (if takeWhile unit_class (dropWhile is_space s) = []
              then after_unit (dropWhile is_space s) caps
              else after_unit (dropWhile unit_class (dropWhile is_space s))
                     (caps(3 \<mapsto> takeWhile unit_class (dropWhile is_space s))))"
    by (rule rep_star_total) (rule unit_group)
  then show ?thesis by (simp only: after_value_def Let_def)
qed

lemma value_group:
  "run_nodes (Grp 2 [num_plus] # tail_after_value) s caps =
   (if takeWhile num_class s = [] then None
    else Some (after_value (dropWhile num_class s) (caps(2 \<mapsto> takeWhile num_class s))))"
proof -
  have cl: "run_nodes (Close 2 s # tail_after_value) t caps =
        Some (after_value t (caps(2 \<mapsto> take (length s - length t) s)))" for t
    by (simp only: run_nodes.simps(4) tail_value)
  have "run_nodes (Grp 2 [num_plus] # tail_after_value) s caps =
        run_nodes (num_plus # Close 2 s # tail_after_value) s caps"
    by (simp only: run_nodes.simps append.simps)
  also have "\<dots> = (if takeWhile num_class s = [] then None
        else Some (after_value (dropWhile num_class s)
               (caps(2 \<mapsto> take (length s - length (dropWhile num_class s)) s))))"
    by (rule rep_plus_total) (rule cl)
  finally show ?thesis
    by (simp only: take_minus_dropWhile)
qed

lemma after_name:
  "run_nodes (Rep sep_class 1 None True # Grp 2 [num_plus] # tail_after_value) s caps =
   value_groups s caps"
proof -
  let ?G = "Grp 2 [num_plus] # tail_after_value"
  define a where "a = takeWhile sep_class s"
  have short: "run_nodes ?G (drop k s) caps = None" if k: "k < length (takeWhile sep_class s)" for k
  proof -
    obtain c u where cu: "drop k s = c # u" "sep_class c"
      using head_in_run [OF k] by blast
    then have "takeWhile num_class (drop k s) = []"
      using num_not_sep [of c] by auto
    then show ?thesis by (simp only: value_group) simp
  qed
  have "run_nodes (Rep sep_class 1 None True # ?G) s caps =
        (if 1 \<le> length a then run_nodes ?G (drop (length a) s) caps else None)"
    unfolding a_def by (rule rep_greedy) (simp, rule short)
  then have "run_nodes (Rep sep_class 1 None True # ?G) s caps =
        (if a = [] then None else run_nodes ?G (dropWhile sep_class s) caps)"
    by (cases a) (simp_all del: run_nodes.simps add: a_def dropWhile_eq_drop)
  then show ?thesis
    by (simp only: value_group value_groups_def Let_def a_def) auto
qed

lemma re_match_pattern: "re_match pattern s = pattern_match s"
proof -
  let ?S = "Rep sep_class 1 None True # Grp 2 [num_plus] # tail_after_value"
  have "re_match pattern s = run_nodes (Rep dot 0 None False # Close 1 s # ?S) s Map.empty"
    by (simp only: re_match_def pattern_def run_nodes.simps append.simps)
  also have "\<dots> = first_match (\<lambda>k. run_nodes (Close 1 s # ?S) (drop k s) Map.empty)
                      [0 ..< Suc (length (takeWhile dot s))]"
    by (simp only: run_nodes.simps) (simp add: candidates_def del: run_nodes.simps upt_Suc)
  also have "\<dots> = first_match (match_from s) [0 ..< Suc (length (takeWhile dot s))]"
  proof (rule first_match_cong)
    fix k
    assume "k \<in> set [0 ..< Suc (length (takeWhile dot s))]"
    then have "k \<le> length s"
      using length_takeWhile_le [of dot s] by auto
    then have "take (length s - length (drop k s)) s = take k s" by simp
    then have "run_nodes (Close 1 s # ?S) (drop k s) Map.empty =
               run_nodes ?S (drop k s) [1 \<mapsto> take k s]"
      by (simp only: run_nodes.simps)
    then show "run_nodes (Close 1 s # ?S) (drop k s) Map.empty = match_from s k"
      by (simp only: after_name match_from_def)
  qed
  finally show ?thesis by (simp only: pattern_match_def)
qed

section \<open>The groups of a match\<close>

lemma first_match_Some: "first_match f ks = Some r \<Longrightarrow> \<exists>k \<in> set ks. f k = Some r"
  by (induction ks) (auto split: option.splits)

lemma range_at_Some:
  assumes "range_at s = Some r"
  shows "\<exists>a b. r = a @ 45 # b \<and> a \<noteq> [] \<and> b \<noteq> [] \<and> list_all num_class a \<and> list_all num_class b
           \<and> set r \<subseteq> set s"
proof (cases "dropWhile num_class s")
  case Nil
  with assms show ?thesis by (simp add: range_at_def)
next
  case (Cons c t)
  define a where "a = takeWhile num_class s"
  define b where "b = takeWhile num_class t"
  from assms Cons have r: "r = a @ 45 # b" "a \<noteq> []" "b \<noteq> []" "c = 45"
    by (auto simp: range_at_def a_def b_def Let_def split: if_splits)
  have "list_all num_class a" "list_all num_class b"
    by (auto simp: a_def b_def list_all_iff dest: set_takeWhileD)
  moreover have "s = a @ c # t"
    using Cons by (metis a_def takeWhile_dropWhile_id)
  then have "set r \<subseteq> set s"
    using r set_takeWhileD [of _ num_class t] by (auto simp: b_def)
  ultimately show ?thesis using r by blast
qed

lemma after_paren_apply:
  "after_paren s caps n = (if n = 4 then (case range_at s of None \<Rightarrow> caps 4 | Some r \<Rightarrow> Some r) else caps n)"
  by (simp add: after_paren_def split: option.splits)

lemma after_unit_apply:
  "after_unit s caps n =
     (if n = 4 then (case range_at (skip_one 40 (dropWhile is_space s)) of None \<Rightarrow> caps 4 | Some r \<Rightarrow> Some r)
      else caps n)"
  by (simp add: after_unit_def after_paren_apply)

lemma set_skip_one: "set (skip_one a s) \<subseteq> set s"
  by (cases s) (auto simp: skip_one_def)

lemma set_dropWhile: "set (dropWhile P s) \<subseteq> set s"
  by (auto dest: set_dropWhileD)

lemma set_takeWhile: "set (takeWhile P s) \<subseteq> set s"
  by (auto dest: set_takeWhileD)

lemma after_unit_4:
  assumes "caps 4 = None"
  shows "after_unit s caps 4 = None \<or> (\<exists>r. after_unit s caps 4 = Some r \<and> range_shaped r)"
proof (cases "range_at (skip_one 40 (dropWhile is_space s))")
  case None
  with assms show ?thesis by (simp add: after_unit_apply)
next
  case (Some r)
  then have "range_shaped r"
    unfolding range_shaped_def using range_at_Some by blast
  with Some show ?thesis by (simp add: after_unit_apply)
qed

lemma after_value_4:
  assumes "caps 4 = None"
  shows "after_value s caps 4 = None \<or> (\<exists>r. after_value s caps 4 = Some r \<and> range_shaped r)"
proof (cases "takeWhile unit_class (dropWhile is_space s) = []")
  case True
  then show ?thesis
    using after_unit_4 [where caps = caps and s = "dropWhile is_space s"] assms
    by (simp add: after_value_def Let_def)
next
  case False
  define caps' where "caps' = caps(3 \<mapsto> takeWhile unit_class (dropWhile is_space s))"
  have "caps' 4 = None"
    using assms by (simp add: caps'_def)
  with after_unit_4 [where caps = caps' and s = "dropWhile unit_class (dropWhile is_space s)"]
  show ?thesis
    using False by (simp add: after_value_def Let_def caps'_def)
qed

lemma value_groups_Some:
  assumes "value_groups s [1 \<mapsto> name] = Some caps"
  shows "caps 1 = Some name \<and>
         (\<exists>v. caps 2 = Some v \<and> v \<noteq> [] \<and> list_all num_class v \<and> set v \<subseteq> set s) \<and>
         (caps 3 = None \<or> (\<exists>u. caps 3 = Some u \<and> u \<noteq> [] \<and> list_all unit_class u)) \<and>
         (caps 4 = None \<or> (\<exists>r. caps 4 = Some r \<and> range_shaped r))"
proof -
  define t where "t = dropWhile sep_class s"
  define v where "v = takeWhile num_class t"
  define w where "w = dropWhile is_space (dropWhile num_class t)"
  define u where "u = takeWhile unit_class w"
  from assms have v: "v \<noteq> []"
    and caps: "caps = after_value (dropWhile num_class t) ([1 \<mapsto> name](2 \<mapsto> v))"
    by (auto simp: value_groups_def Let_def t_def v_def split: if_splits)
  have c4: "caps 4 = None \<or> (\<exists>r. caps 4 = Some r \<and> range_shaped r)"
    unfolding caps
    using after_value_4 [where caps = "[1 \<mapsto> name](2 \<mapsto> v)" and s = "dropWhile num_class t"]
    by simp
  have c1: "caps 1 = Some name" and c2: "caps 2 = Some v"
    unfolding caps after_value_def Let_def by (simp_all add: after_unit_apply)
  have c3: "caps 3 = (if u = [] then None else Some u)"
    unfolding caps after_value_def Let_def u_def w_def by (simp add: after_unit_apply)
  have "list_all num_class v" "list_all unit_class u"
    by (auto simp: v_def u_def list_all_iff dest: set_takeWhileD)
  moreover have "set v \<subseteq> set s"
    unfolding v_def t_def using set_takeWhile set_dropWhile by fast
  ultimately show ?thesis using c1 c2 c3 c4 v by auto
qed

lemma pattern_match_Some:
  assumes "pattern_match s = Some caps"
  shows "(\<exists>k. caps 1 = Some (take k s)) \<and>
         (\<exists>v. caps 2 = Some v \<and> v \<noteq> [] \<and> list_all num_class v \<and> set v \<subseteq> set s) \<and>
         (caps 3 = None \<or> (\<exists>u. caps 3 = Some u \<and> u \<noteq> [] \<and> list_all unit_class u)) \<and>
         (caps 4 = None \<or> (\<exists>r. caps 4 = Some r \<and> range_shaped r))"
proof -
  from assms obtain k where "match_from s k = Some caps"
    unfolding pattern_match_def by (blast dest: first_match_Some)
  then have vg: "value_groups (drop k s) [1 \<mapsto> take k s] = Some caps"
    by (simp add: match_from_def)
  from value_groups_Some [OF vg] set_drop_subset [of k s] show ?thesis by blast
qed

section \<open>Evaluation on concrete inputs\<close>

lemma floor_rat_numeral: "\<lfloor>numeral a / numeral b :: rat\<rfloor> = numeral a div numeral b"
  by (metis floor_divide_of_int_eq of_int_numeral)

lemma ceiling_rat_numeral: "\<lceil>numeral a / numeral b :: rat\<rceil> = - (- numeral a div numeral b)"
proof -
  have "\<lceil>numeral a / numeral b :: rat\<rceil> = - \<lfloor>of_int (- numeral a) / of_int (numeral b) :: rat\<rfloor>"
    by (simp add: ceiling_def)
  then show ?thesis
    by (simp only: floor_divide_of_int_eq)
qed

lemmas float_eval = round_to_double_def floor_log2_def pow2_def round_half_even_def Let_def
  ilog2.simps floor_rat_numeral ceiling_rat_numeral

lemmas eval_defs = process_line_def strip_def lstrip_def rstrip_def is_space_def
  pattern_match_def match_from_def value_groups_def after_value_def after_unit_def
  after_paren_def range_at_def skip_one_def dot_def sep_class_def num_class_def unit_class_def
  is_digit_def decimal_value_def cleaned_def cleaned_upper_def upper_def upper_cp_def
  try_append_def py_float_def decimal_of_def digits_value_def range_check_def py_split_def
  make_entry_def Let_def List.map_filter_def

lemma e1: "round_to_double 13 = Finite 13"
  by (simp add: float_eval)

lemma e2: "round_to_double (19 / 2) = Finite (19 / 2)"
  by (simp add: float_eval)

lemma e4: "round_to_double (3 / 8) = Finite (3 / 8)"
  by (simp add: float_eval)

lemma e3: "pattern_match (str ''X 13.0 (13.0-17.0)'') = Some [1 \<mapsto> str ''X'', 2 \<mapsto> str ''13.0'', 4 \<mapsto> str ''13.0-17.0'']"
  by (simp add: eval_defs)

section \<open>The records the parser emits\<close>

lemma dropWhile_hd: "xs = [] \<or> \<not> P (hd xs) \<Longrightarrow> dropWhile P xs = xs"
  by (cases xs) auto

lemma strip_no_space:
  assumes "s = [] \<or> (\<not> is_space (hd s) \<and> \<not> is_space (last s))"
  shows "strip s = s"
proof -
  have l: "dropWhile is_space s = s"
    using assms by (intro dropWhile_hd) blast
  have "rev s = [] \<or> \<not> is_space (hd (rev s))"
    using assms by (cases "s = []") (simp_all add: hd_rev)
  then have "dropWhile is_space (rev s) = rev s"
    by (rule dropWhile_hd)
  with l show ?thesis by (simp add: strip_def lstrip_def rstrip_def)
qed

lemma strip_all_nonspace:
  assumes "list_all (\<lambda>c. \<not> is_space c) s"
  shows "strip s = s"
proof (cases "s = []")
  case True
  then show ?thesis by (simp add: strip_no_space)
next
  case False
  then have "hd s \<in> set s" "last s \<in> set s" by simp_all
  with assms have "\<not> is_space (hd s) \<and> \<not> is_space (last s)"
    by (simp add: list_all_iff)
  then show ?thesis by (simp add: strip_no_space)
qed

lemma strip_num: "list_all num_class v \<Longrightarrow> strip v = v"
  by (rule strip_all_nonspace) (auto simp: list_all_iff dest: num_not_space)

lemma cleaned_num: "list_all num_class v \<Longrightarrow> cleaned (Some v) = v"
  by (simp add: cleaned_def strip_num)

lemma range_shaped_no_space:
  assumes "range_shaped r"
  shows "list_all (\<lambda>c. \<not> is_space c) r"
proof -
  from assms obtain a b where r: "r = a @ 45 # b"
    and ab: "list_all num_class a" "list_all num_class b"
    unfolding range_shaped_def by blast
  have "\<not> is_space c" if "c \<in> set r" for c
  proof -
    from that r have "c \<in> set a \<or> c = 45 \<or> c \<in> set b" by auto
    moreover have "\<not> is_space 45" by (simp add: is_space_def)
    ultimately show ?thesis
      using ab num_not_space by (auto simp: list_all_iff)
  qed
  then show ?thesis by (simp add: list_all_iff)
qed

lemma cleaned_range: "range_shaped r \<Longrightarrow> cleaned (Some r) = r"
  by (simp add: cleaned_def strip_all_nonspace range_shaped_no_space)

lemma getitem_make_entry:
  "getitem (make_entry n v r u b) ''test_name'' = Inr (PStr n)"
  "getitem (make_entry n v r u b) ''test_value'' = Inr (PStr v)"
  "getitem (make_entry n v r u b) ''bio_reference_range'' = Inr (PStr r)"
  "getitem (make_entry n v r u b) ''test_unit'' = Inr (PStr u)"
  "getitem (make_entry n v r u b) ''lab_test_out_of_range'' = Inr (PBool b)"
  by (simp_all add: getitem_def make_entry_def)

lemma process_line_emits:
  assumes "process_line line results = Inr (results @ [e])"
  shows "\<exists>caps fv b. strip line \<noteq> [] \<and> re_match pattern (strip line) = Some caps \<and>
           cleaned_upper (caps 1) \<noteq> [] \<and> cleaned (caps 2) \<noteq> [] \<and>
           py_float (cleaned (caps 2)) = Inr fv \<and>
           range_check (cleaned (caps 4)) fv = Inr b \<and>
           e = make_entry (cleaned_upper (caps 1)) (cleaned (caps 2)) (cleaned (caps 4))
                 (cleaned (caps 3)) b"
proof -
  have ne: "strip line \<noteq> []"
    using assms by (auto simp: process_line_def)
  then obtain caps where caps: "re_match pattern (strip line) = Some caps"
    using assms by (cases "re_match pattern (strip line)") (auto simp: process_line_def)
  define n where "n = cleaned_upper (caps 1)"
  define v where "v = cleaned (caps 2)"
  define u where "u = cleaned (caps 3)"
  define r where "r = cleaned (caps 4)"
  have pl: "process_line line results =
      (if n = [] \<or> v = [] then Inr results
       else case try_append n v u r results of
              Inl ValueError \<Rightarrow> Inr results | Inl x \<Rightarrow> Inl x | Inr res \<Rightarrow> Inr res)"
    using ne caps by (simp add: process_line_def n_def v_def u_def r_def)
  with assms have nv: "n \<noteq> []" "v \<noteq> []"
    by (auto split: if_splits)
  with pl assms have ta: "try_append n v u r results = Inr (results @ [e])"
    by (auto split: sum.splits py_error.splits)
  then obtain fv where fv: "py_float v = Inr fv"
    by (cases "py_float v") (auto simp: try_append_def)
  with ta obtain b where b: "range_check r fv = Inr b" "e = make_entry n v r u b"
    by (cases "range_check r fv") (auto simp: try_append_def)
  show ?thesis
    using ne caps nv fv b unfolding n_def v_def u_def r_def by blast
qed

lemma parse_loop_emitted:
  assumes "parse_loop ls acc = Inr rs" and "e \<in> set rs"
  shows "e \<in> set acc \<or> (\<exists>l \<in> set ls. \<exists>res. process_line l res = Inr (res @ [e]))"
  using assms
proof (induction ls arbitrary: acc)
  case Nil
  then show ?case by simp
next
  case (Cons l ls)
  from process_line_cases [of l acc] show ?case
  proof
    assume same: "process_line l acc = Inr acc"
    with Cons.prems have "parse_loop ls acc = Inr rs" by simp
    from Cons.IH [OF this Cons.prems(2)] show ?case by auto
  next
    assume "\<exists>n v u r b. process_line l acc = Inr (acc @ [make_entry n v r u b])"
    then obtain d where d: "process_line l acc = Inr (acc @ [d])" by blast
    with Cons.prems have "parse_loop ls (acc @ [d]) = Inr rs" by simp
    from Cons.IH [OF this Cons.prems(2)] d show ?case by auto
  qed
qed

lemma parse_lab_tests_emitted:
  assumes "parse_lab_tests text = Inr rs" and "e \<in> set rs"
  shows "\<exists>l \<in> set (splitlines text). \<exists>res. process_line l res = Inr (res @ [e])"
  using parse_loop_emitted [of "splitlines text" "[]" rs e] assms
  by (simp add: parse_lab_tests_def)

lemma not_float_le: "\<not> float_le a b \<longleftrightarrow> float_less b a"
  by (cases a; cases b) auto

lemma float_le_refl: "float_le a a"
  by (cases a) auto

section \<open>The formatter on the parser's output\<close>

text \<open>
  Claim C9.  For every input text, \<^verbatim>\<open>parse_lab_tests\<close> returns a list of records,
  and \<^verbatim>\<open>format_output\<close> applied to that list raises nothing (no \<^verbatim>\<open>KeyError\<close>)
  and returns a list equal to it: the same records, in the same order, each with the
  same five fields and values.
\<close>

theorem format_output_parse_lab_tests:
  "\<exists>rs. parse_lab_tests text = Inr rs \<and> format_output rs = Inr rs"
proof -
  obtain rs where rs: "parse_loop (splitlines text) [] = Inr rs" "list_all made rs"
    using parse_loop_returns [of "[]" "splitlines text"] by auto
  then show ?thesis
    using format_loop_made [of rs "[]"] by (simp add: parse_lab_tests_def format_output_def)
qed

theorem format_output_parse_lab_tests_witness:
  "\<exists>rs. parse_lab_tests [65, 32, 55] = Inr rs \<and> format_output rs = Inr rs"
  by (rule format_output_parse_lab_tests)

section \<open>The out-of-range flag\<close>

lemmas parse_eval = parse_lab_tests_def splitlines_def is_linebreak_def re_match_pattern
  eval_defs float_eval

lemma unpack2_Inr: "unpack2 xs = Inr (l, h) \<Longrightarrow> xs = [Inr l, Inr h]"
  by (cases xs rule: unpack2.cases) (auto split: sum.splits)

lemma unpack2_unusable:
  assumes "Inl ValueError \<in> set (map py_float ps)"
  shows "unpack2 (map py_float ps) = Inl ValueError"
proof (cases "unpack2 (map py_float ps)")
  case (Inl x)
  then show ?thesis using unpack2_error by blast
next
  case (Inr lh)
  then have "map py_float ps = [Inr (fst lh), Inr (snd lh)]"
    by (intro unpack2_Inr) simp
  with assms show ?thesis by auto
qed

lemma range_check_unusable:
  assumes "r = [] \<or> Inl ValueError \<in> set (map py_float (py_split 45 r))"
  shows "range_check r x = Inr False"
proof (cases "r = []")
  case True
  then show ?thesis by (simp add: range_check_def)
next
  case False
  with assms have "unpack2 (map py_float (py_split 45 r)) = Inl ValueError"
    by (intro unpack2_unusable) simp
  with False show ?thesis by (simp add: range_check_def)
qed

lemma range_check_usable:
  assumes "r \<noteq> []" and "py_split 45 r = [lo, hi]"
    and "py_float lo = Inr low" and "py_float hi = Inr high"
  shows "range_check r x = Inr (float_less x low \<or> float_less high x)"
  using assms by (auto simp: range_check_def not_float_le)

text \<open>
  Claim C1, as amended.  For every line that yields a record whose reference range is
  not empty and splits at the hyphen into two halves that both parse as numbers, the
  record's \<^verbatim>\<open>lab_test_out_of_range\<close> is true exactly when the parsed value is strictly
  less than \<open>low\<close> or strictly greater than \<open>high\<close>; when \<open>low \<le> high\<close>, a value
  equal to either bound is in range.
\<close>

theorem out_of_range_flag:
  assumes "process_line line results = Inr (results @ [e])"
    and "getitem e ''test_value'' = Inr (PStr v)"
    and "getitem e ''bio_reference_range'' = Inr (PStr r)"
    and "r \<noteq> []"
    and "py_split 45 r = [lo, hi]"
    and "py_float v = Inr x"
    and "py_float lo = Inr low"
    and "py_float hi = Inr high"
  shows "getitem e ''lab_test_out_of_range'' = Inr (PBool (float_less x low \<or> float_less high x)) \<and>
         (float_le low high \<and> (x = low \<or> x = high) \<longrightarrow>
            getitem e ''lab_test_out_of_range'' = Inr (PBool False))"
proof -
  from process_line_emits [OF assms(1)]
  obtain n v' r' u fv b where py: "py_float v' = Inr fv"
    and rc: "range_check r' fv = Inr b" and e: "e = make_entry n v' r' u b"
    by blast
  from e assms(2,3) have "v' = v" "r' = r"
    by (simp_all add: getitem_make_entry)
  with py rc assms(6) have "range_check r x = Inr b" by simp
  then have b: "b = (float_less x low \<or> float_less high x)"
    using range_check_usable [OF assms(4,5,7,8), of x] by simp
  have flag: "getitem e ''lab_test_out_of_range'' = Inr (PBool b)"
    by (simp add: e getitem_make_entry)
  have "\<not> b" if "float_le low high" "x = low \<or> x = high"
    using that float_le_refl not_float_le unfolding b by blast
  with flag b show ?thesis by auto
qed

theorem out_of_range_flag_witness:
  "process_line (str ''X 13.0 (13.0-17.0)'') [] =
     Inr ([] @ [make_entry (str ''X'') (str ''13.0'') (str ''13.0-17.0'') [] False]) \<and>
   py_split 45 (str ''13.0-17.0'') = [str ''13.0'', str ''17.0''] \<and>
   py_float (str ''13.0'') = Inr (Finite 13) \<and>
   py_float (str ''17.0'') = Inr (Finite 17) \<and>
   float_le (Finite 13) (Finite 17) \<and>
   getitem (make_entry (str ''X'') (str ''13.0'') (str ''13.0-17.0'') [] False)
     ''lab_test_out_of_range'' = Inr (PBool False)"
proof -
  let ?e = "make_entry (str ''X'') (str ''13.0'') (str ''13.0-17.0'') [] False"
  have h1: "process_line (str ''X 13.0 (13.0-17.0)'') [] = Inr ([] @ [?e])"
    by (simp add: re_match_pattern eval_defs float_eval)
  have h2: "getitem ?e ''test_value'' = Inr (PStr (str ''13.0''))"
    by (rule getitem_make_entry)
  have h3: "getitem ?e ''bio_reference_range'' = Inr (PStr (str ''13.0-17.0''))"
    by (rule getitem_make_entry)
  have h4: "str ''13.0-17.0'' \<noteq> []" by simp
  have h5: "py_split 45 (str ''13.0-17.0'') = [str ''13.0'', str ''17.0'']"
    by (simp add: py_split_def)
  have h6: "py_float (str ''13.0'') = Inr (Finite 13)"
    by (simp add: eval_defs float_eval)
  have h8: "py_float (str ''17.0'') = Inr (Finite 17)"
    by (simp add: eval_defs float_eval)
  have h9: "float_le (Finite 13) (Finite 17)" by simp
  from out_of_range_flag [OF h1 h2 h3 h4 h5 h6 h6 h8] h9
  have "getitem ?e ''lab_test_out_of_range'' = Inr (PBool False)"
    by blast
  with h1 h5 h6 h8 h9 show ?thesis by blast
qed

text \<open>
  The claim as stated also has every value equal to a bound in range.  On a range
  written high to low that fails: in \<^verbatim>\<open>X 17.0 (17.0-13.0)\<close> the value equals
  \<open>low\<close>, it is greater than \<open>high\<close>, and the record is flagged.
\<close>

theorem out_of_range_flag_counterexample:
  "process_line (str ''X 17.0 (17.0-13.0)'') [] =
     Inr [make_entry (str ''X'') (str ''17.0'') (str ''17.0-13.0'') [] True] \<and>
   py_split 45 (str ''17.0-13.0'') = [str ''17.0'', str ''13.0''] \<and>
   py_float (str ''17.0'') = Inr (Finite 17) \<and>
   py_float (str ''13.0'') = Inr (Finite 13) \<and>
   getitem (make_entry (str ''X'') (str ''17.0'') (str ''17.0-13.0'') [] True)
     ''lab_test_out_of_range'' = Inr (PBool True)"
proof -
  have "process_line (str ''X 17.0 (17.0-13.0)'') [] =
     Inr [make_entry (str ''X'') (str ''17.0'') (str ''17.0-13.0'') [] True]"
    by (simp add: re_match_pattern eval_defs float_eval)
  moreover have "py_split 45 (str ''17.0-13.0'') = [str ''17.0'', str ''13.0'']"
    by (simp add: py_split_def)
  moreover have "py_float (str ''17.0'') = Inr (Finite 17)"
    by (simp add: eval_defs float_eval)
  moreover have "py_float (str ''13.0'') = Inr (Finite 13)"
    by (simp add: eval_defs float_eval)
  moreover have "getitem (make_entry (str ''X'') (str ''17.0'') (str ''17.0-13.0'') [] True)
     ''lab_test_out_of_range'' = Inr (PBool True)"
    by (rule getitem_make_entry)
  ultimately show ?thesis by blast
qed

text \<open>
  Claim C2.  In every record that \<^verbatim>\<open>parse_lab_tests\<close> emits, if the reference range
  is empty, or a part of it between hyphens fails to parse as a number, then
  \<^verbatim>\<open>lab_test_out_of_range\<close> is false; the failed conversion does not leave the
  range check as an exception, which returns false instead.
\<close>

theorem unusable_range_in_range:
  assumes "parse_lab_tests text = Inr rs"
    and "e \<in> set rs"
    and "getitem e ''bio_reference_range'' = Inr (PStr r)"
    and "r = [] \<or> Inl ValueError \<in> set (map py_float (py_split 45 r))"
  shows "getitem e ''lab_test_out_of_range'' = Inr (PBool False) \<and>
         (\<forall>x. range_check r x = Inr False)"
proof -
  from parse_lab_tests_emitted [OF assms(1,2)]
  obtain l res where "process_line l res = Inr (res @ [e])" by blast
  from process_line_emits [OF this]
  obtain n v r' u fv b where rc: "range_check r' fv = Inr b" and e: "e = make_entry n v r' u b"
    by blast
  from e assms(3) have "r' = r" by (simp add: getitem_make_entry)
  with rc range_check_unusable [OF assms(4)] have "b = False" by simp
  then show ?thesis
    using range_check_unusable [OF assms(4)] by (simp add: e getitem_make_entry)
qed

theorem unusable_range_in_range_witness:
  "parse_lab_tests (str ''X 5 (1.2.3-4)'') =
     Inr [make_entry (str ''X'') (str ''5'') (str ''1.2.3-4'') [] False] \<and>
   Inl ValueError \<in> set (map py_float (py_split 45 (str ''1.2.3-4''))) \<and>
   getitem (make_entry (str ''X'') (str ''5'') (str ''1.2.3-4'') [] False)
     ''lab_test_out_of_range'' = Inr (PBool False) \<and>
   (\<forall>x. range_check (str ''1.2.3-4'') x = Inr False)"
proof -
  let ?e = "make_entry (str ''X'') (str ''5'') (str ''1.2.3-4'') [] False"
  have h1: "parse_lab_tests (str ''X 5 (1.2.3-4)'') = Inr [?e]"
    by (simp add: parse_eval)
  have h2: "?e \<in> set [?e]" by simp
  have h3: "getitem ?e ''bio_reference_range'' = Inr (PStr (str ''1.2.3-4''))"
    by (rule getitem_make_entry)
  have h4: "Inl ValueError \<in> set (map py_float (py_split 45 (str ''1.2.3-4'')))"
    by (simp add: eval_defs)
  from unusable_range_in_range [OF h1 h2 h3 disjI2 [OF h4]] h1 h4
  show ?thesis by blast
qed

section \<open>The scenario of the specification\<close>

text \<open>
  Claim C8.  \<^verbatim>\<open>parse_lab_tests\<close> applied to the single line
  \<^verbatim>\<open>HEMOGLOBIN 9.5 g/dL (13.0-17.0)\<close> emits exactly one record, with
  \<^verbatim>\<open>test_name\<close> \<^verbatim>\<open>HEMOGLOBIN\<close>, \<^verbatim>\<open>test_value\<close> \<^verbatim>\<open>9.5\<close>, \<^verbatim>\<open>test_unit\<close>
  \<^verbatim>\<open>g/dL\<close>, \<^verbatim>\<open>bio_reference_range\<close> \<^verbatim>\<open>13.0-17.0\<close> and
  \<^verbatim>\<open>lab_test_out_of_range\<close> true.
\<close>

theorem hemoglobin_scenario:
  "parse_lab_tests (str ''HEMOGLOBIN 9.5 g/dL (13.0-17.0)'') =
   Inr [[(''test_name'', PStr (str ''HEMOGLOBIN'')), (''test_value'', PStr (str ''9.5'')),
         (''bio_reference_range'', PStr (str ''13.0-17.0'')),
         (''test_unit'', PStr (str ''g/dL'')), (''lab_test_out_of_range'', PBool True)]]"
  by (simp add: parse_eval)

theorem hemoglobin_scenario_witness:
  "\<exists>e. parse_lab_tests (str ''HEMOGLOBIN 9.5 g/dL (13.0-17.0)'') = Inr [e] \<and>
       getitem e ''test_name'' = Inr (PStr (str ''HEMOGLOBIN'')) \<and>
       getitem e ''test_value'' = Inr (PStr (str ''9.5'')) \<and>
       getitem e ''test_unit'' = Inr (PStr (str ''g/dL'')) \<and>
       getitem e ''bio_reference_range'' = Inr (PStr (str ''13.0-17.0'')) \<and>
       getitem e ''lab_test_out_of_range'' = Inr (PBool True)"
  using hemoglobin_scenario by (simp add: getitem_def)

section \<open>The characters of the value and of the range\<close>

lemma emitted_groups:
  assumes "process_line line results = Inr (results @ [e])"
  shows "\<exists>n v r u b. e = make_entry n v r u b \<and> v \<noteq> [] \<and> list_all num_class v \<and>
           set v \<subseteq> set (strip line) \<and> (r = [] \<or> range_shaped r)"
proof -
  from process_line_emits [OF assms]
  obtain caps b where m: "re_match pattern (strip line) = Some caps"
    and e: "e = make_entry (cleaned_upper (caps 1)) (cleaned (caps 2)) (cleaned (caps 4))
                 (cleaned (caps 3)) b"
    by blast
  from m have pm: "pattern_match (strip line) = Some caps"
    by (simp add: re_match_pattern)
  from pattern_match_Some [OF pm]
  obtain v where v: "caps 2 = Some v" "v \<noteq> []" "list_all num_class v" "set v \<subseteq> set (strip line)"
    and c4: "caps 4 = None \<or> (\<exists>r. caps 4 = Some r \<and> range_shaped r)"
    by blast
  have cv: "cleaned (caps 2) = v"
    using v by (simp add: cleaned_num)
  have "cleaned (caps 4) = [] \<or> range_shaped (cleaned (caps 4))"
    using c4 by (auto simp: cleaned_range) (simp add: cleaned_def)
  with e cv v show ?thesis by blast
qed

lemma num_class_no_hyphen: "list_all num_class a \<Longrightarrow> 45 \<notin> set a"
  using num_not_hyphen by (auto simp: list_all_iff one_of_def)

text \<open>
  Claim C10.  In every record that \<^verbatim>\<open>parse_lab_tests\<close> emits, \<^verbatim>\<open>test_value\<close>
  consists of decimal digits and points only (so it has no sign, exponent or
  whitespace), and \<^verbatim>\<open>bio_reference_range\<close> is either empty or made of two non-empty
  strings of digits and points around one hyphen, the only hyphen in it.
\<close>

theorem value_and_range_shape:
  assumes "parse_lab_tests text = Inr rs" and "e \<in> set rs"
  shows "\<exists>v r. getitem e ''test_value'' = Inr (PStr v) \<and>
           list_all (\<lambda>c. is_digit c \<or> c = 46) v \<and>
           getitem e ''bio_reference_range'' = Inr (PStr r) \<and>
           (r = [] \<or>
            (\<exists>a b. r = a @ 45 # b \<and> a \<noteq> [] \<and> b \<noteq> [] \<and>
               list_all (\<lambda>c. is_digit c \<or> c = 46) a \<and>
               list_all (\<lambda>c. is_digit c \<or> c = 46) b \<and> 45 \<notin> set a \<and> 45 \<notin> set b))"
proof -
  from parse_lab_tests_emitted [OF assms]
  obtain l res where "process_line l res = Inr (res @ [e])" by blast
  from emitted_groups [OF this]
  obtain n v r u b where e: "e = make_entry n v r u b" and v: "list_all num_class v"
    and r: "r = [] \<or> range_shaped r"
    by blast
  have nc: "num_class = (\<lambda>c. is_digit c \<or> c = 46)"
    by (rule ext) (simp add: num_class_def)
  have "r = [] \<or>
        (\<exists>a b. r = a @ 45 # b \<and> a \<noteq> [] \<and> b \<noteq> [] \<and> list_all num_class a \<and>
           list_all num_class b \<and> 45 \<notin> set a \<and> 45 \<notin> set b)"
    using r unfolding range_shaped_def by (blast dest: num_class_no_hyphen)
  with v show ?thesis
    unfolding nc by (simp add: e getitem_make_entry)
qed

theorem value_and_range_shape_witness:
  "\<exists>e v r. parse_lab_tests (str ''WBC COUNT 7200 /uL 4000-11000'') = Inr [e] \<and>
     getitem e ''test_value'' = Inr (PStr v) \<and> v = str ''7200'' \<and>
     list_all (\<lambda>c. is_digit c \<or> c = 46) v \<and>
     getitem e ''bio_reference_range'' = Inr (PStr r) \<and> r = str ''4000-11000'' \<and>
     (r = [] \<or>
      (\<exists>a b. r = a @ 45 # b \<and> a \<noteq> [] \<and> b \<noteq> [] \<and>
         list_all (\<lambda>c. is_digit c \<or> c = 46) a \<and>
         list_all (\<lambda>c. is_digit c \<or> c = 46) b \<and> 45 \<notin> set a \<and> 45 \<notin> set b))"
proof -
  let ?e = "make_entry (str ''WBC COUNT'') (str ''7200'') (str ''4000-11000'') (str ''/uL'') False"
  have h1: "parse_lab_tests (str ''WBC COUNT 7200 /uL 4000-11000'') = Inr [?e]"
    by (simp add: parse_eval)
  have h2: "?e \<in> set [?e]" by simp
  from value_and_range_shape [OF h1 h2] h1 show ?thesis
    by (auto simp: getitem_make_entry)
qed

section \<open>Lines that yield no record\<close>

lemma set_strip: "set (strip s) \<subseteq> set s"
proof -
  have "set (rev (dropWhile is_space (rev (dropWhile is_space s)))) \<subseteq> set (dropWhile is_space s)"
    using set_dropWhile [of is_space "rev (dropWhile is_space s)"] by simp
  also have "\<dots> \<subseteq> set s" by (rule set_dropWhile)
  finally show ?thesis by (simp add: strip_def lstrip_def rstrip_def)
qed

lemma decimal_of_digit:
  assumes "decimal_of s = Some q"
  shows "\<exists>c \<in> set s. is_digit c"
proof (cases "takeWhile is_digit s = []")
  case False
  then obtain c where "c \<in> set (takeWhile is_digit s)"
    by (cases "takeWhile is_digit s") auto
  then have "c \<in> set s \<and> is_digit c"
    by (auto dest: set_takeWhileD)
  then show ?thesis by blast
next
  case True
  show ?thesis
  proof (cases "dropWhile is_digit s")
    case Nil
    with True assms show ?thesis by (simp add: decimal_of_def)
  next
    case (Cons c fp)
    with True assms have fp: "fp \<noteq> []" "list_all is_digit fp"
      by (auto simp: decimal_of_def split: if_splits)
    have "set fp \<subseteq> set s"
      using set_dropWhile [of is_digit s] Cons by auto
    with fp show ?thesis
      by (cases fp) (auto simp: list_all_iff)
  qed
qed

lemma process_line_skips:
  assumes "strip line = [] \<or> re_match pattern (strip line) = None \<or>
           list_all (\<lambda>c. \<not> is_digit c) line \<or>
           (\<exists>caps. re_match pattern (strip line) = Some caps \<and>
                   py_float (cleaned (caps 2)) = Inl ValueError)"
  shows "process_line line results = Inr results"
proof (rule ccontr)
  assume "process_line line results \<noteq> Inr results"
  with process_line_cases [of line results]
  obtain e where em: "process_line line results = Inr (results @ [e])" by blast
  from process_line_emits [OF em]
  obtain caps fv where ne: "strip line \<noteq> []"
    and m: "re_match pattern (strip line) = Some caps"
    and fl: "py_float (cleaned (caps 2)) = Inr fv"
    by blast
  from emitted_groups [OF em] process_line_emits [OF em] m
  have sub: "set (cleaned (caps 2)) \<subseteq> set (strip line)"
    by (auto simp: make_entry_def)
  from fl obtain q where "decimal_of (cleaned (caps 2)) = Some q"
    by (auto simp: py_float_def split: option.splits)
  from decimal_of_digit [OF this] sub set_strip [of line]
  have "\<exists>c \<in> set line. is_digit c" by blast
  with assms ne m fl show False
    by (auto simp: list_all_iff)
qed

text \<open>
  Claim C3.  \<^verbatim>\<open>parse_lab_tests\<close> is total: for every text it returns a list of
  records and raises nothing.  A line that is blank, a line that does not match the
  pattern, a line without any digit and a line whose value token \<^verbatim>\<open>float()\<close> rejects
  each add no record, and the loop goes on with the lines that follow.
\<close>

theorem parse_lab_tests_total:
  "(\<exists>rs. parse_lab_tests text = Inr rs) \<and>
   (strip line = [] \<or> re_match pattern (strip line) = None \<or>
    list_all (\<lambda>c. \<not> is_digit c) line \<or>
    (\<exists>caps. re_match pattern (strip line) = Some caps \<and>
            py_float (cleaned (caps 2)) = Inl ValueError) \<longrightarrow>
    process_line line results = Inr results \<and>
    parse_loop (line # lines) results = parse_loop lines results)"
proof -
  have "\<exists>rs. parse_lab_tests text = Inr rs"
    using parse_loop_returns [of "[]" "splitlines text"] by (auto simp: parse_lab_tests_def)
  moreover have "process_line line results = Inr results \<and>
      parse_loop (line # lines) results = parse_loop lines results"
    if "strip line = [] \<or> re_match pattern (strip line) = None \<or>
        list_all (\<lambda>c. \<not> is_digit c) line \<or>
        (\<exists>caps. re_match pattern (strip line) = Some caps \<and>
                py_float (cleaned (caps 2)) = Inl ValueError)"
    using process_line_skips [OF that] by simp
  ultimately show ?thesis by blast
qed

theorem parse_lab_tests_total_witness:
  "(\<exists>rs. parse_lab_tests (str ''A 1'' @ [10, 10] @ str ''no value'' @ [10] @ str ''B ..'') = Inr rs) \<and>
   strip [] = [] \<and>
   re_match pattern (strip (str ''5 g'')) = None \<and>
   list_all (\<lambda>c. \<not> is_digit c) (str ''no value'') \<and>
   (\<exists>caps. re_match pattern (strip (str ''B ..'')) = Some caps \<and>
           py_float (cleaned (caps 2)) = Inl ValueError) \<and>
   parse_loop [[], str ''A 1''] [] = parse_loop [str ''A 1''] [] \<and>
   parse_loop [str ''5 g'', str ''A 1''] [] = parse_loop [str ''A 1''] [] \<and>
   parse_loop [str ''no value'', str ''A 1''] [] = parse_loop [str ''A 1''] [] \<and>
   parse_loop [str ''B ..'', str ''A 1''] [] = parse_loop [str ''A 1''] []"
proof -
  have h1: "strip [] = []" by (simp add: eval_defs)
  have h2: "re_match pattern (strip (str ''5 g'')) = None"
    by (simp add: re_match_pattern eval_defs)
  have h3: "list_all (\<lambda>c. \<not> is_digit c) (str ''no value'')"
    by (simp add: eval_defs)
  have h4: "\<exists>caps. re_match pattern (strip (str ''B ..'')) = Some caps \<and>
           py_float (cleaned (caps 2)) = Inl ValueError"
    by (simp add: re_match_pattern eval_defs)
  note t = parse_lab_tests_total
    [of "str ''A 1'' @ [10, 10] @ str ''no value'' @ [10] @ str ''B ..''" _ "[]" "[str ''A 1'']"]
  from t [of "[]"] h1
  have c1: "parse_loop [[], str ''A 1''] [] = parse_loop [str ''A 1''] []" by blast
  from t [of "str ''5 g''"] h2
  have c2: "parse_loop [str ''5 g'', str ''A 1''] [] = parse_loop [str ''A 1''] []" by blast
  from t [of "str ''no value''"] h3
  have c3: "parse_loop [str ''no value'', str ''A 1''] [] = parse_loop [str ''A 1''] []" by blast
  from t [of "str ''B ..''"] h4
  have c4: "parse_loop [str ''B ..'', str ''A 1''] [] = parse_loop [str ''A 1''] []" by blast
  from t [of "[]"] have "\<exists>rs. parse_lab_tests
      (str ''A 1'' @ [10, 10] @ str ''no value'' @ [10] @ str ''B ..'') = Inr rs"
    by blast
  with h1 h2 h3 h4 c1 c2 c3 c4 show ?thesis by blast
qed

section \<open>The value token and its number\<close>

text \<open>
  The binary logarithm is bounded as it should be, and rounding overflows to infinity
  from \<open>2 ^ 1024\<close> on.
\<close>

lemma ilog2_bounds: "0 < n \<Longrightarrow> 2 ^ ilog2 n \<le> n \<and> n < 2 ^ Suc (ilog2 n)"
proof (induction n rule: ilog2.induct)
  case (1 n)
  show ?case
  proof (cases "n < 2")
    case True
    with "1.prems" have "n = 1" by simp
    then show ?thesis by (simp add: ilog2.simps)
  next
    case False
    then have "0 < n div 2" by simp
    with "1.IH" False have ih: "2 ^ ilog2 (n div 2) \<le> n div 2" "n div 2 < 2 ^ Suc (ilog2 (n div 2))"
      by simp_all
    have il: "ilog2 n = Suc (ilog2 (n div 2))"
      using False by (subst ilog2.simps) simp
    from ih show ?thesis
      unfolding il by (simp add: power_Suc) linarith
  qed
qed

lemma round_half_even_ge_floor: "\<lfloor>x\<rfloor> \<le> round_half_even x"
  by (simp add: round_half_even_def Let_def)

lemma round_to_double_overflow:
  assumes "2 ^ 1024 \<le> q"
  shows "round_to_double q = PosInf"
proof -
  define n where "n = nat \<lfloor>q\<rfloor>"
  define k where "k = ilog2 n"
  have "(1::rat) \<le> 2 ^ 1024"
    by (rule one_le_power) simp
  with assms have q1: "1 \<le> q" by (rule order_trans [rotated])
  then have fl: "0 < \<lfloor>q\<rfloor>" by simp
  then have n0: "0 < n" by (simp add: n_def)
  have nq: "of_nat n \<le> q"
    using fl by (simp add: n_def)
  have "q < of_int \<lfloor>q\<rfloor> + 1"
    by linarith
  then have qn: "q < of_nat n + 1"
    using fl by (simp add: n_def)
  from ilog2_bounds [OF n0] have lo: "2 ^ k \<le> n" and hi: "n < 2 ^ Suc k"
    by (simp_all add: k_def)
  from lo have lo': "(2::rat) ^ k \<le> of_nat n"
    by (metis of_nat_le_iff of_nat_numeral of_nat_power)
  from hi have "n + 1 \<le> 2 ^ Suc k" by simp
  then have "(of_nat n + 1 :: rat) \<le> 2 ^ Suc k"
    by (metis of_nat_le_iff of_nat_numeral of_nat_power of_nat_add of_nat_1)
  with qn have "q < 2 ^ Suc k" by (rule less_le_trans)
  with assms have lt: "(2::rat) ^ 1024 < 2 ^ Suc k" by (rule le_less_trans)
  have "(1024::nat) < Suc k"
    by (rule power_less_imp_less_exp [where a = "2::rat"]) (simp, rule lt)
  then have k: "1024 \<le> k" by simp
  have e: "floor_log2 q = int k"
    using q1 by (simp add: floor_log2_def n_def k_def)
  define u :: rat where "u = 2 ^ (k - 52)"
  have u: "pow2 (max (floor_log2 q) (- 1022) - 52) = u"
    using k by (simp add: e pow2_def u_def nat_diff_distrib')
  have upos: "0 < u" by (simp add: u_def)
  have "k = 52 + (k - 52)" using k by simp
  then have "(2::rat) ^ k = 2 ^ (52 + (k - 52))" by (rule arg_cong)
  then have pk: "(2::rat) ^ k = 2 ^ 52 * u"
    by (simp only: power_add u_def)
  from lo' nq have "(2::rat) ^ k \<le> q" by (rule order_trans)
  then have "2 ^ 52 * u \<le> q" by (simp only: pk)
  then have "(2 ^ 52 :: rat) \<le> q / u"
    by (simp only: pos_le_divide_eq [OF upos])
  then have "(2 ^ 52 :: int) \<le> \<lfloor>q / u\<rfloor>"
    by (simp add: le_floor_iff)
  with round_half_even_ge_floor [of "q / u"]
  have "(2 ^ 52 :: int) \<le> round_half_even (q / u)" by (rule order_trans [rotated])
  then have "(2 ^ 52 :: rat) \<le> of_int (round_half_even (q / u))"
    by (metis of_int_le_iff of_int_numeral of_int_power)
  with upos have "2 ^ 52 * u \<le> of_int (round_half_even (q / u)) * u"
    by (simp only: mult_le_cancel_right_pos)
  then have a: "2 ^ k \<le> of_int (round_half_even (q / u)) * u"
    by (simp only: pk)
  have b: "(2::rat) ^ 1024 \<le> 2 ^ k"
    using k by (intro power_increasing) simp_all
  from b a have ge: "2 ^ 1024 \<le> of_int (round_half_even (q / u)) * u"
    by (rule order_trans)
  have "q \<noteq> 0" using q1 by auto
  then have "round_to_double q =
      (if 2 ^ 1024 \<le> of_int (round_half_even (q / u)) * u then PosInf
       else Finite (of_int (round_half_even (q / u)) * u))"
    by (simp only: round_to_double_def Let_def u if_False)
  with ge show ?thesis by (simp only: if_True)
qed

lemma digits_value_snoc:
  "decimal_value c = Some d \<Longrightarrow> digits_value (s @ [c]) = 10 * digits_value s + d"
  by (simp add: digits_value_def List.map_filter_def)

lemma digits_value_one_zeros: "digits_value (49 # replicate n 48) = 10 ^ n"
proof (induction n)
  case 0
  show ?case
    by (simp add: digits_value_def List.map_filter_def decimal_value_def)
next
  case (Suc n)
  have eq: "(49::nat) # replicate (Suc n) 48 = (49 # replicate n 48) @ [48]"
    by (simp add: replicate_append_same)
  have "digits_value (49 # replicate (Suc n) 48) = digits_value ((49 # replicate n 48) @ [48])"
    by (simp only: eq)
  also have "\<dots> = 10 * digits_value (49 # replicate n 48) + 0"
    by (rule digits_value_snoc) (simp add: decimal_value_def)
  also have "\<dots> = 10 ^ Suc n"
    by (simp only: Suc) simp
  finally show ?case .
qed

lemma decimal_of_digits:
  assumes "list_all is_digit s" and "s \<noteq> []"
  shows "decimal_of s = Some (of_nat (digits_value s))"
proof -
  have tw: "takeWhile is_digit s = s" and dw: "dropWhile is_digit s = []"
    using assms(1) by (simp_all add: list_all_iff)
  show ?thesis
    unfolding decimal_of_def Let_def tw dw using assms(2) by simp
qed

lemma one_zeros_digits: "list_all is_digit (49 # replicate n 48)"
  by (simp add: list_all_iff is_digit_def decimal_value_def)

lemma py_float_one_zeros:
  assumes "2 ^ 1024 \<le> (10::rat) ^ n"
  shows "py_float (49 # replicate n 48) = Inr PosInf"
proof -
  have "decimal_of (49 # replicate n 48) = Some (of_nat (digits_value (49 # replicate n 48)))"
    by (rule decimal_of_digits) (rule one_zeros_digits, simp)
  then have "decimal_of (49 # replicate n 48) = Some (10 ^ n)"
    by (simp only: digits_value_one_zeros of_nat_power of_nat_numeral)
  with round_to_double_overflow [OF assms] show ?thesis
    by (simp add: py_float_def)
qed

lemma is_digit_ge: "is_digit c \<Longrightarrow> 48 \<le> c"
  using is_digit_range [of c] by auto

lemma digits_num_class: "list_all is_digit v \<Longrightarrow> list_all num_class v"
  by (simp add: list_all_iff num_class_def)

lemma plain_value_match:
  assumes v: "list_all is_digit v" "v \<noteq> []"
  shows "pattern_match (65 # 32 # v) = Some [1 \<mapsto> [65], 2 \<mapsto> v]"
proof -
  let ?s = "65 # 32 # v"
  have hd: "is_digit (hd v)"
    using v by (cases v) simp_all
  have f0: "match_from ?s 0 = None"
    by (simp add: match_from_def value_groups_def sep_class_def is_space_def)
  have "\<not> sep_class (hd v)"
    using hd num_not_sep [of "hd v"] by (auto simp: num_class_def)
  with v(2) have dv: "dropWhile sep_class v = v"
    by (intro dropWhile_hd) simp
  have nv: "takeWhile num_class v = v" "dropWhile num_class v = []"
    using digits_num_class [OF v(1)] by (simp_all add: list_all_iff)
  have tail: "after_value [] caps = caps" for caps
    by (simp add: after_value_def after_unit_def after_paren_def skip_one_def range_at_def)
  have f1: "match_from ?s 1 = Some [1 \<mapsto> [65], 2 \<mapsto> v]"
    using v(2) by (simp add: match_from_def value_groups_def sep_class_def is_space_def dv nv tail)
  obtain rest where "[0 ..< Suc (length (takeWhile dot ?s))] = 0 # 1 # rest"
    by (simp add: dot_def upt_conv_Cons del: upt_Suc)
  then show ?thesis
    by (simp only: pattern_match_def first_match.simps f0 f1 option.case)
qed

lemma plain_value_line:
  assumes v: "list_all is_digit v" "v \<noteq> []" and fl: "py_float v = Inr x"
  shows "process_line (65 # 32 # v) results = Inr (results @ [make_entry [65] v [] [] False])"
proof -
  let ?s = "65 # 32 # v"
  have "is_digit (last v)"
    using v by (simp add: list_all_iff)
  then have "\<not> is_space (last ?s)"
    using v(2) digit_not_space by simp
  moreover have "\<not> is_space (hd ?s)" by (simp add: is_space_def)
  ultimately have st: "strip ?s = ?s"
    by (intro strip_no_space) blast
  have m: "re_match pattern ?s = Some [1 \<mapsto> [65], 2 \<mapsto> v]"
    by (simp only: re_match_pattern plain_value_match [OF v])
  have c1: "cleaned_upper (Some [65]) = [65]"
    by (simp add: eval_defs)
  have c2: "cleaned (Some v) = v"
    by (rule cleaned_num) (rule digits_num_class [OF v(1)])
  have c3: "cleaned None = []" by (simp add: cleaned_def)
  have ta: "try_append [65] v [] [] results = Inr (results @ [make_entry [65] v [] [] False])"
    by (simp add: try_append_def fl range_check_def)
  show ?thesis
    unfolding process_line_def st m
    using v(2) by (simp add: c1 c2 c3 ta Let_def)
qed

text \<open>
  Claim C7, as amended.  A line yields a record only when its value token is a decimal
  numeral (digits with at most one point among them and at least one digit), which
  \<^verbatim>\<open>float()\<close> converts by correct rounding to a finite number or to infinity; a line
  whose value token is no such numeral is skipped and yields no record.
\<close>

theorem value_token_is_numeral:
  "(process_line line results = Inr (results @ [e]) \<and>
    getitem e ''test_value'' = Inr (PStr v) \<longrightarrow>
      (\<exists>q. decimal_of v = Some q \<and> py_float v = Inr (round_to_double q))) \<and>
   (re_match pattern (strip line) = Some caps \<and> decimal_of (cleaned (caps 2)) = None \<longrightarrow>
      process_line line results = Inr results)"
proof -
  have "\<exists>q. decimal_of v = Some q \<and> py_float v = Inr (round_to_double q)"
    if em: "process_line line results = Inr (results @ [e])"
      and tv: "getitem e ''test_value'' = Inr (PStr v)"
  proof -
    from process_line_emits [OF em]
    obtain n v' r u fv b where fl: "py_float v' = Inr fv" and e: "e = make_entry n v' r u b"
      by blast
    from e tv have "v' = v" by (simp add: getitem_make_entry)
    with fl show ?thesis
      by (auto simp: py_float_def split: option.splits)
  qed
  moreover have "process_line line results = Inr results"
    if "re_match pattern (strip line) = Some caps" "decimal_of (cleaned (caps 2)) = None"
  proof (rule process_line_skips)
    from that have "py_float (cleaned (caps 2)) = Inl ValueError"
      by (simp add: py_float_def)
    with that(1) show "strip line = [] \<or> re_match pattern (strip line) = None \<or>
        list_all (\<lambda>c. \<not> is_digit c) line \<or>
        (\<exists>caps. re_match pattern (strip line) = Some caps \<and>
                py_float (cleaned (caps 2)) = Inl ValueError)"
      by blast
  qed
  ultimately show ?thesis by blast
qed

theorem value_token_is_numeral_witness:
  "process_line (str ''A 1'') [] = Inr ([] @ [make_entry (str ''A'') (str ''1'') [] [] False]) \<and>
   getitem (make_entry (str ''A'') (str ''1'') [] [] False) ''test_value'' = Inr (PStr (str ''1'')) \<and>
   (\<exists>q. decimal_of (str ''1'') = Some q \<and> py_float (str ''1'') = Inr (round_to_double q)) \<and>
   re_match pattern (strip (str ''B ..'')) = Some [1 \<mapsto> str ''B'', 2 \<mapsto> str ''..''] \<and>
   decimal_of (cleaned ([1 \<mapsto> str ''B'', 2 \<mapsto> str ''..''] 2)) = None \<and>
   process_line (str ''B ..'') [] = Inr []"
proof -
  let ?e = "make_entry (str ''A'') (str ''1'') [] [] False"
  let ?caps = "[1 \<mapsto> str ''B'', 2 \<mapsto> str ''..'']"
  have h1: "process_line (str ''A 1'') [] = Inr ([] @ [?e])"
    by (simp add: re_match_pattern eval_defs float_eval)
  have h2: "getitem ?e ''test_value'' = Inr (PStr (str ''1''))"
    by (rule getitem_make_entry)
  have h3: "re_match pattern (strip (str ''B ..'')) = Some ?caps"
    by (simp add: re_match_pattern eval_defs)
  have h4: "decimal_of (cleaned (?caps 2)) = None"
    by (simp add: eval_defs)
  note t = value_token_is_numeral [of "str ''A 1''" "[]" ?e "str ''1''"]
  note t' = value_token_is_numeral [of "str ''B ..''" "[]" _ _ ?caps]
  from t h1 h2
  have c1: "\<exists>q. decimal_of (str ''1'') = Some q \<and> py_float (str ''1'') = Inr (round_to_double q)"
    by blast
  from t' h3 h4 have c2: "process_line (str ''B ..'') [] = Inr []"
    by blast
  from h1 h2 h3 h4 c1 c2 show ?thesis by blast
qed

text \<open>
  The claim as stated has the value of every record parse as a finite number.  A one
  followed by 309 zeros is a numeral beyond the range of binary64: \<^verbatim>\<open>float()\<close>
  returns infinity for it without raising, and the record is emitted.
\<close>

theorem value_token_is_numeral_counterexample:
  "process_line (65 # 32 # 49 # replicate 309 48) [] =
     Inr [make_entry [65] (49 # replicate 309 48) [] [] False] \<and>
   getitem (make_entry [65] (49 # replicate 309 48) [] [] False) ''test_value'' =
     Inr (PStr (49 # replicate 309 48)) \<and>
   py_float (49 # replicate 309 48) = Inr PosInf"
proof -
  have "(2::rat) ^ 1024 \<le> 10 ^ 309" by simp
  then have fl: "py_float (49 # replicate 309 48) = Inr PosInf"
    by (rule py_float_one_zeros)
  have "process_line (65 # 32 # 49 # replicate 309 48) [] =
     Inr ([] @ [make_entry [65] (49 # replicate 309 48) [] [] False])"
    by (rule plain_value_line [OF one_zeros_digits _ fl]) simp
  moreover have "getitem (make_entry [65] (49 # replicate 309 48) [] [] False) ''test_value'' =
     Inr (PStr (49 # replicate 309 48))"
    by (rule getitem_make_entry)
  ultimately show ?thesis
    using fl by (simp only: append_Nil simp_thms)
qed

end
